theory Spec2Isabelle
  imports Main "HOL-Library.Multiset"
begin

section \<open>JavaScript numbers\<close>

text \<open>
  A JavaScript number is an IEEE 754 binary64 value. \<open>Fin m k\<close> stands for the finite
  value \<open>m * 2 ^ k * 2 ^ (-1074)\<close>: every finite double is a whole multiple of the
  smallest subnormal \<open>2 ^ (-1074)\<close>, so the type holds no value finer than the format
  allows. The two zeros of the format are one value here, the positive one: the program
  divides only by a product of two square roots, which is never the negative zero, and
  otherwise only adds, subtracts, multiplies, takes square roots and compares, where the
  sign of a zero is not seen. Equality of two doubles in a statement below is therefore
  equality up to the sign of zero, as \<open>===\<close> has it.
\<close>

datatype double = NaN | PInf | NInf | Fin int nat

text \<open>Number of binary digits of a natural number.\<close>

fun bitlen :: "nat \<Rightarrow> nat" where
  "bitlen n = (if n = 0 then 0 else 1 + bitlen (n div 2))"

text \<open>Integer square root, two bits of the argument at a time.\<close>

function isqrt :: "nat \<Rightarrow> nat" where
  "isqrt n = (if n = 0 then 0
     else (let r = 2 * isqrt (n div 4) in if (r + 1) * (r + 1) \<le> n then r + 1 else r))"
  by pat_completeness auto
termination
  by (relation "measure id") auto

text \<open>The representation with an odd mantissa (or \<open>Fin 0 0\<close> for zero).\<close>

function normalise :: "int \<Rightarrow> nat \<Rightarrow> double" where
  "normalise m k = (if m = 0 then Fin 0 0
     else if even m then normalise (m div 2) (Suc k) else Fin m k)"
  by pat_completeness auto
termination
  by (relation "measure (\<lambda>(m, k). nat \<bar>m\<bar>)") auto

text \<open>
  \<open>finish sg q t\<close> is the double of sign \<open>sg\<close> and magnitude \<open>q * 2 ^ t\<close> (in units of
  \<open>2 ^ (-1074)\<close>) once \<open>q\<close> has at most 53 bits: an infinity from \<open>2 ^ 1024\<close> on.
\<close>

definition finish :: "int \<Rightarrow> nat \<Rightarrow> nat \<Rightarrow> double" where
  "finish sg q t =
     (if q = 0 then Fin 0 0
      else if 2098 < bitlen q + t then (if sg < 0 then NInf else PInf)
      else normalise (sg * int q) t)"

text \<open>
  The first bits of \<open>a\<close> when its last \<open>s\<close> bits are dropped, rounded to nearest with
  ties to even: \<open>r\<close> is what is dropped and \<open>h\<close> is half a unit of the last bit kept.
\<close>

definition round_magnitude :: "nat \<Rightarrow> nat \<Rightarrow> nat" where
  "round_magnitude a s =
     (let q = a div 2 ^ s; r = a mod 2 ^ s; h = 2 ^ (s - 1)
      in if h < r \<or> (r = h \<and> odd q) then q + 1 else q)"

text \<open>
  Rounding to nearest, ties to even, of the exact value \<open>m * 2 ^ e\<close> (in units of
  \<open>2 ^ (-1074)\<close>, \<open>e\<close> of either sign): the result keeps at most 53 bits and is a whole
  number of units, so \<open>t\<close> is the exponent of its last bit and \<open>s\<close> the number of bits
  dropped.
\<close>

definition round_double :: "int \<Rightarrow> int \<Rightarrow> double" where
  "round_double m e =
     (let a = nat \<bar>m\<bar>;
          t = max 0 (e + int (bitlen a) - 53);
          s = nat (t - e)
      in if s = 0 then finish (sgn m) a (nat e)
         else finish (sgn m) (round_magnitude a s) (nat t))"

definition zero :: double where
  "zero = Fin 0 0"

definition one :: double where
  "one = Fin 1 1074"

definition half :: double where
  "half = Fin 1 1073"

text \<open>The double of a whole number (exact up to \<open>2 ^ 53\<close>).\<close>

definition of_int_d :: "int \<Rightarrow> double" where
  "of_int_d i = round_double i 1074"

fun dneg :: "double \<Rightarrow> double" where
  "dneg NaN = NaN"
| "dneg PInf = NInf"
| "dneg NInf = PInf"
| "dneg (Fin m k) = Fin (- m) k"

fun dsign :: "double \<Rightarrow> int" where
  "dsign NaN = 0"
| "dsign PInf = 1"
| "dsign NInf = - 1"
| "dsign (Fin m k) = sgn m"

fun is_nan :: "double \<Rightarrow> bool" where
  "is_nan NaN = True"
| "is_nan _ = False"

fun is_finite :: "double \<Rightarrow> bool" where
  "is_finite (Fin m k) = True"
| "is_finite _ = False"

text \<open>
  \<open>a + b\<close>: the other operand when one is zero, and the exact sum of the two, written
  with the smaller exponent, rounded.
\<close>

fun dadd :: "double \<Rightarrow> double \<Rightarrow> double" where
  "dadd (Fin m1 k1) (Fin m2 k2) =
     (if m1 = 0 then round_double m2 (int k2)
      else if m2 = 0 then round_double m1 (int k1)
      else let k = min k1 k2 in round_double (m1 * 2 ^ (k1 - k) + m2 * 2 ^ (k2 - k)) (int k))"
| "dadd NaN _ = NaN"
| "dadd _ NaN = NaN"
| "dadd PInf NInf = NaN"
| "dadd NInf PInf = NaN"
| "dadd PInf _ = PInf"
| "dadd NInf _ = NInf"
| "dadd _ PInf = PInf"
| "dadd _ NInf = NInf"

text \<open>\<open>a - b\<close>\<close>

definition dsub :: "double \<Rightarrow> double \<Rightarrow> double" where
  "dsub a b = dadd a (dneg b)"

text \<open>\<open>a * b\<close>\<close>

fun dmul :: "double \<Rightarrow> double \<Rightarrow> double" where
  "dmul (Fin m1 k1) (Fin m2 k2) = round_double (m1 * m2) (int k1 + int k2 - 1074)"
| "dmul NaN _ = NaN"
| "dmul _ NaN = NaN"
| "dmul a b = (let s = dsign a * dsign b in if s = 0 then NaN else if s < 0 then NInf else PInf)"

text \<open>
  \<open>a / b\<close>. The quotient of the mantissas is taken to at least 56 bits and one more bit
  records whether anything is left, which rounds as the exact quotient does.
\<close>

fun ddiv :: "double \<Rightarrow> double \<Rightarrow> double" where
  "ddiv (Fin m1 k1) (Fin m2 k2) =
     (if m2 = 0 then (if m1 = 0 then NaN else if m1 < 0 then NInf else PInf)
      else let a = nat \<bar>m1\<bar>; b = nat \<bar>m2\<bar>;
               p = (56 + bitlen b) - bitlen a;
               q = (a * 2 ^ p) div b;
               sticky = (if (a * 2 ^ p) mod b = 0 then 0 else 1)
           in round_double (sgn m1 * sgn m2 * int (2 * q + sticky))
                (int k1 - int k2 + 1074 - int p - 1))"
| "ddiv NaN _ = NaN"
| "ddiv _ NaN = NaN"
| "ddiv (Fin m k) _ = Fin 0 0"
| "ddiv PInf (Fin m k) = (if m < 0 then NInf else PInf)"
| "ddiv NInf (Fin m k) = (if m < 0 then PInf else NInf)"
| "ddiv _ _ = NaN"

text \<open>
  \<open>Math.sqrt(a)\<close>. The mantissa is scaled by an even power of two to at least 112 bits,
  so that its integer root has at least 56, and one more bit records inexactness.
\<close>

fun dsqrt :: "double \<Rightarrow> double" where
  "dsqrt NaN = NaN"
| "dsqrt PInf = PInf"
| "dsqrt NInf = NaN"
| "dsqrt (Fin m k) =
     (if m < 0 then NaN
      else if m = 0 then Fin 0 0
      else let a = nat m;
               p0 = 112 - bitlen a;
               p = (if even (int k - int p0) then p0 else Suc p0);
               n = a * 2 ^ p;
               r = isqrt n;
               sticky = (if r * r = n then 0 else 1)
           in round_double (int (2 * r + sticky)) ((int k - 1074 - int p) div 2 + 1073))"

text \<open>\<open>a < b\<close>\<close>

fun dlt :: "double \<Rightarrow> double \<Rightarrow> bool" where
  "dlt (Fin m1 k1) (Fin m2 k2) = (let k = min k1 k2 in m1 * 2 ^ (k1 - k) < m2 * 2 ^ (k2 - k))"
| "dlt NaN _ = False"
| "dlt _ NaN = False"
| "dlt PInf _ = False"
| "dlt _ PInf = True"
| "dlt _ NInf = False"
| "dlt NInf _ = True"

text \<open>\<open>a > b\<close>\<close>

definition dgt :: "double \<Rightarrow> double \<Rightarrow> bool" where
  "dgt a b = dlt b a"

text \<open>\<open>a === b\<close> on numbers\<close>

fun deq :: "double \<Rightarrow> double \<Rightarrow> bool" where
  "deq (Fin m1 k1) (Fin m2 k2) = (let k = min k1 k2 in m1 * 2 ^ (k1 - k) = m2 * 2 ^ (k2 - k))"
| "deq PInf PInf = True"
| "deq NInf NInf = True"
| "deq _ _ = False"


text \<open>\<open>a >= b\<close>\<close>

definition dge :: "double \<Rightarrow> double \<Rightarrow> bool" where
  "dge a b = (dlt b a \<or> deq a b)"

section \<open>JavaScript values\<close>

text \<open>
  The values that \<open>JSON.parse\<close> and \<open>response.json()\<close> produce, and \<open>undefined\<close>.
  An object is the list of its own properties.
\<close>

datatype jsval =
    Undefined
  | Null
  | Bool bool
  | Num double
  | Str string
  | Arr "jsval list"
  | Obj "(string \<times> jsval) list"

datatype error = ApiError nat | TypeError | FetchError | JsonError

text \<open>\<open>!v\<close> is \<open>\<not> truthy v\<close>.\<close>

fun truthy :: "jsval \<Rightarrow> bool" where
  "truthy Undefined = False"
| "truthy Null = False"
| "truthy (Bool b) = b"
| "truthy (Num d) = (\<not> is_nan d \<and> \<not> deq d zero)"
| "truthy (Str s) = (s \<noteq> [])"
| "truthy (Arr xs) = True"
| "truthy (Obj kvs) = True"

text \<open>\<open>Array.isArray(v)\<close>\<close>

fun isArray :: "jsval \<Rightarrow> bool" where
  "isArray (Arr xs) = True"
| "isArray _ = False"

fun elems :: "jsval \<Rightarrow> jsval list" where
  "elems (Arr xs) = xs"
| "elems _ = []"

text \<open>
  \<open>v.name\<close> for a name that no prototype defines (\<open>data\<close>, \<open>embedding\<close>, \<open>choices\<close>,
  \<open>message\<close>, \<open>content\<close>): a TypeError on \<open>undefined\<close> and \<open>null\<close>, the property of an
  object, \<open>undefined\<close> on every other value.
\<close>

fun get_field :: "string \<Rightarrow> jsval \<Rightarrow> error + jsval" where
  "get_field name Undefined = Inl TypeError"
| "get_field name Null = Inl TypeError"
| "get_field name (Obj kvs) = Inr (case map_of kvs name of None \<Rightarrow> Undefined | Some v \<Rightarrow> v)"
| "get_field name _ = Inr Undefined"

text \<open>\<open>v[0]\<close>\<close>

fun get_index0 :: "jsval \<Rightarrow> error + jsval" where
  "get_index0 Undefined = Inl TypeError"
| "get_index0 Null = Inl TypeError"
| "get_index0 (Arr xs) = Inr (case xs of [] \<Rightarrow> Undefined | x # _ \<Rightarrow> x)"
| "get_index0 (Str s) = Inr (case s of [] \<Rightarrow> Undefined | c # _ \<Rightarrow> Str [c])"
| "get_index0 (Obj kvs) = Inr (case map_of kvs ''0'' of None \<Rightarrow> Undefined | Some v \<Rightarrow> v)"
| "get_index0 _ = Inr Undefined"

text \<open>
  Conversion to a primitive throws a TypeError on a value that has none. Of the values
  above that is an object with an own property \<open>toString\<close>: the property hides
  \<open>Object.prototype.toString\<close> and is not a function, and \<open>valueOf\<close> gives the object
  back. It is also an array that holds such a value, since the conversion of an array
  joins the conversions of its elements.
\<close>

fun no_primitive :: "jsval \<Rightarrow> bool" where
  "no_primitive (Obj kvs) = (map_of kvs ''toString'' \<noteq> None)"
| "no_primitive (Arr xs) = (\<exists>x \<in> set xs. no_primitive x)"
| "no_primitive _ = False"

text \<open>
  The number that ToNumber gives when it returns. A number is itself; what the
  conversion makes of any other value (parsing a string, joining an array) is the
  parameter \<open>tn\<close>.
\<close>

definition num_of :: "(jsval \<Rightarrow> double) \<Rightarrow> jsval \<Rightarrow> double" where
  "num_of tn v = (case v of Num d \<Rightarrow> d | _ \<Rightarrow> tn v)"

text \<open>ToNumber: \<open>Inl\<close> is a throw.\<close>

definition to_number :: "(jsval \<Rightarrow> double) \<Rightarrow> jsval \<Rightarrow> error + double" where
  "to_number tn v = (if no_primitive v then Inl TypeError else Inr (num_of tn v))"

text \<open>\<open>x * y\<close>: the left operand is converted first.\<close>

definition multiply :: "(jsval \<Rightarrow> double) \<Rightarrow> jsval \<Rightarrow> jsval \<Rightarrow> error + double" where
  "multiply tn x y =
     (case to_number tn x of
        Inl e \<Rightarrow> Inl e
      | Inr a \<Rightarrow> (case to_number tn y of Inl e \<Rightarrow> Inl e | Inr b \<Rightarrow> Inr (dmul a b)))"

text \<open>
  \<open>Array.from\<close> and \<open>map\<close> with a callback that may throw, and \<open>reduce\<close> with such a
  callback: the first throw ends the loop.
\<close>

fun map_throwing :: "('a \<Rightarrow> error + 'b) \<Rightarrow> 'a list \<Rightarrow> error + 'b list" where
  "map_throwing f [] = Inr []"
| "map_throwing f (x # xs) =
     (case f x of
        Inl e \<Rightarrow> Inl e
      | Inr y \<Rightarrow> (case map_throwing f xs of Inl e \<Rightarrow> Inl e | Inr ys \<Rightarrow> Inr (y # ys)))"

fun reduce_throwing :: "('s \<Rightarrow> 'a \<Rightarrow> error + 's) \<Rightarrow> 's \<Rightarrow> 'a list \<Rightarrow> error + 's" where
  "reduce_throwing f s [] = Inr s"
| "reduce_throwing f s (x # xs) =
     (case f s x of Inl e \<Rightarrow> Inl e | Inr s' \<Rightarrow> reduce_throwing f s' xs)"

text \<open>
  The string that an element of \<open>Array.prototype.join\<close> gives when its conversion
  returns: \<open>undefined\<close> and \<open>null\<close> give the empty string, a string is itself, and what
  ToString makes of any other value is the parameter \<open>ts\<close>.
\<close>

definition str_of :: "(jsval \<Rightarrow> string) \<Rightarrow> jsval \<Rightarrow> string" where
  "str_of ts v = (case v of Str s \<Rightarrow> s | Undefined \<Rightarrow> [] | Null \<Rightarrow> [] | _ \<Rightarrow> ts v)"

text \<open>The conversion of an element of \<open>join\<close>: \<open>Inl\<close> is a throw.\<close>

definition to_string :: "(jsval \<Rightarrow> string) \<Rightarrow> jsval \<Rightarrow> error + string" where
  "to_string ts v = (if no_primitive v then Inl TypeError else Inr (str_of ts v))"

fun join :: "string \<Rightarrow> string list \<Rightarrow> string" where
  "join sep [] = []"
| "join sep [x] = x"
| "join sep (x # y # ys) = x @ sep @ join sep (y # ys)"

text \<open>\<open>vs.join(sep)\<close> on an array of values: the first conversion that throws ends it.\<close>

definition join_throwing :: "(jsval \<Rightarrow> string) \<Rightarrow> string \<Rightarrow> jsval list \<Rightarrow> error + string" where
  "join_throwing ts sep vs =
     (case map_throwing (to_string ts) vs of Inl e \<Rightarrow> Inl e | Inr ss \<Rightarrow> Inr (join sep ss))"

section \<open>Vector math\<close>

text \<open>
  \<open>cosineSimilarity(vecA, vecB)\<close>: \<open>Inr\<close> is the number returned and \<open>Inl\<close> a throw, which
  only a multiplication can cause.
\<close>

definition cosineSimilarity :: "(jsval \<Rightarrow> double) \<Rightarrow> jsval \<Rightarrow> jsval \<Rightarrow> error + double" where
  "cosineSimilarity tn vecA vecB =
     (if \<not> truthy vecA \<or> \<not> truthy vecB \<or> \<not> isArray vecA \<or> \<not> isArray vecB then Inr zero
      else let len = min (length (elems vecA)) (length (elems vecB))
           in if len = 0 then Inr zero
              else (case map_throwing (\<lambda>i. multiply tn (elems vecA ! i) (elems vecB ! i)) [0..<len] of
                      Inl e \<Rightarrow> Inl e
                    | Inr products \<Rightarrow>
                        let dotProduct = foldl (\<lambda>sum val. dadd sum val) zero products
                        in (case reduce_throwing
                                   (\<lambda>sum a. case multiply tn a a of
                                               Inl e \<Rightarrow> Inl e
                                             | Inr square \<Rightarrow> Inr (dadd sum square))
                                   zero (take len (elems vecA)) of
                              Inl e \<Rightarrow> Inl e
                            | Inr sumA \<Rightarrow>
                                let normA = dsqrt sumA
                                in (case reduce_throwing
                                           (\<lambda>sum b. case multiply tn b b of
                                                       Inl e \<Rightarrow> Inl e
                                                     | Inr square \<Rightarrow> Inr (dadd sum square))
                                           zero (take len (elems vecB)) of
                                      Inl e \<Rightarrow> Inl e
                                    | Inr sumB \<Rightarrow>
                                        let normB = dsqrt sumB
                                        in if deq normA zero \<or> deq normB zero then Inr zero
                                           else Inr (ddiv dotProduct (dmul normA normB))))))"

text \<open>
  The number that \<open>cosineSimilarity\<close> returns when no multiplication throws: the same
  computation with every operand taken as its number.
\<close>

definition cosine :: "(jsval \<Rightarrow> double) \<Rightarrow> jsval \<Rightarrow> jsval \<Rightarrow> double" where
  "cosine tn vecA vecB =
     (if \<not> truthy vecA \<or> \<not> truthy vecB \<or> \<not> isArray vecA \<or> \<not> isArray vecB then zero
      else let len = min (length (elems vecA)) (length (elems vecB))
           in if len = 0 then zero
              else let dotProduct =
                         foldl (\<lambda>sum val. dadd sum val) zero
                           (map (\<lambda>i. dmul (num_of tn (elems vecA ! i)) (num_of tn (elems vecB ! i)))
                              [0..<len]);
                       normA = dsqrt (foldl (\<lambda>sum a. dadd sum (dmul (num_of tn a) (num_of tn a)))
                                        zero (take len (elems vecA)));
                       normB = dsqrt (foldl (\<lambda>sum b. dadd sum (dmul (num_of tn b) (num_of tn b)))
                                        zero (take len (elems vecB)))
                   in if deq normA zero \<or> deq normB zero then zero
                      else ddiv dotProduct (dmul normA normB))"

text \<open>
  The quantities of the contract of cosine similarity, over the first \<open>L\<close> indices: a sum
  adds its terms to 0 in index order, each addition rounded.
\<close>

definition float_sum :: "double list \<Rightarrow> double" where
  "float_sum xs = foldl dadd zero xs"

definition prefix_dot :: "(jsval \<Rightarrow> double) \<Rightarrow> nat \<Rightarrow> jsval list \<Rightarrow> jsval list \<Rightarrow> double" where
  "prefix_dot tn L as bs =
     float_sum (map (\<lambda>i. dmul (num_of tn (as ! i)) (num_of tn (bs ! i))) [0..<L])"

definition prefix_norm :: "(jsval \<Rightarrow> double) \<Rightarrow> nat \<Rightarrow> jsval list \<Rightarrow> double" where
  "prefix_norm tn L as =
     dsqrt (float_sum (map (\<lambda>i. dmul (num_of tn (as ! i)) (num_of tn (as ! i))) [0..<L]))"


text \<open>The sum of the squares of a vector of numbers, in the same order and rounding.\<close>

definition sum_squares :: "double list \<Rightarrow> double" where
  "sum_squares ds = float_sum (map (\<lambda>d. dmul d d) ds)"

text \<open>The doubles next to 1 at distance \<open>2 ^ (-52)\<close>: 0.9999999999999998 and 1.0000000000000002.\<close>

definition below_one :: double where
  "below_one = Fin 4503599627370495 1022"

definition above_one :: double where
  "above_one = Fin 4503599627370497 1022"

text \<open>An element that is the number zero.\<close>

fun is_zero_num :: "jsval \<Rightarrow> bool" where
  "is_zero_num (Num (Fin m k)) = (m = 0)"
| "is_zero_num _ = False"

text \<open>
  A multiplication of \<open>cosineSimilarity\<close> throws on the arrays \<open>as\<close> and \<open>bs\<close>: below the
  common length one of them holds a value that has no primitive.
\<close>

definition unconvertible :: "jsval list \<Rightarrow> jsval list \<Rightarrow> bool" where
  "unconvertible as bs =
     (let L = min (length as) (length bs)
      in list_ex no_primitive (take L as) \<or> list_ex no_primitive (take L bs))"

section \<open>Embedding client\<close>

text \<open>
  What one call of \<open>fetch\<close> followed by \<open>response.json()\<close> can do: the request is
  rejected, or a response arrives with a status and a body that parses (\<open>Some\<close>) or does
  not (\<open>None\<close>). \<open>response.ok\<close> is a status from 200 to 299.
\<close>

datatype fetch_outcome = Rejected | Response nat "jsval option"

definition response_ok :: "nat \<Rightarrow> bool" where
  "response_ok status = (200 \<le> status \<and> status \<le> 299)"

text \<open>
  The embedding call fails: the request is rejected, the status is not a success, or the
  body does not parse.
\<close>

fun embedding_call_fails :: "fetch_outcome \<Rightarrow> bool" where
  "embedding_call_fails Rejected = True"
| "embedding_call_fails (Response status body) = (\<not> response_ok status \<or> body = None)"

text \<open>The \<open>try\<close> block of \<open>generateEmbeddings\<close>: \<open>Inl\<close> is a throw.\<close>

definition generateEmbeddings_try :: "fetch_outcome \<Rightarrow> error + jsval" where
  "generateEmbeddings_try out =
     (case out of
        Rejected \<Rightarrow> Inl FetchError
      | Response status body \<Rightarrow>
          if \<not> response_ok status then Inl (ApiError status)
          else (case body of
                  None \<Rightarrow> Inl JsonError
                | Some result \<Rightarrow>
                    (case get_field ''data'' result of
                       Inl e \<Rightarrow> Inl e
                     | Inr d \<Rightarrow>
                         (case get_index0 d of
                            Inl e \<Rightarrow> Inl e
                          | Inr d0 \<Rightarrow> get_field ''embedding'' d0))))"

definition fallback :: jsval where
  "fallback = Arr (replicate 512 (Num zero))"

text \<open>
  \<open>generateEmbeddings(text)\<close>, with its \<open>catch\<close>. The network is the parameter \<open>fetch\<close>,
  from the text sent to what comes back.
\<close>

definition generateEmbeddings :: "(jsval \<Rightarrow> fetch_outcome) \<Rightarrow> jsval \<Rightarrow> jsval" where
  "generateEmbeddings fetch text =
     (case generateEmbeddings_try (fetch text) of
        Inl e \<Rightarrow> fallback
      | Inr embedding \<Rightarrow> embedding)"

text \<open>
  \<open>getEmbedding(text)\<close>, an async function: \<open>Inr\<close> when its promise resolves, \<open>Inl\<close> when it
  rejects.
\<close>

definition getEmbedding :: "(jsval \<Rightarrow> fetch_outcome) \<Rightarrow> jsval \<Rightarrow> error + jsval" where
  "getEmbedding fetch text = Inr (generateEmbeddings fetch text)"

section \<open>Document loader\<close>

record document =
  filename :: string
  content :: jsval

record scored_document = document +
  score :: double

text \<open>\<open>s.endsWith(suffix)\<close>\<close>

definition endsWith :: "string \<Rightarrow> string \<Rightarrow> bool" where
  "endsWith s suf = (length suf \<le> length s \<and> drop (length s - length suf) s = suf)"

text \<open>
  The directory is the list of its entries, each a name and what \<open>readFileSync\<close> gives for
  it (\<open>None\<close> when it throws). \<open>JSON.parse\<close> is the parameter \<open>parse\<close> (\<open>None\<close> when it
  throws).
\<close>

definition load_one :: "(string \<Rightarrow> jsval option) \<Rightarrow> (string \<times> string option) list \<Rightarrow> string \<Rightarrow> document" where
  "load_one parse dir name =
     (case map_of dir name of
        None \<Rightarrow> \<lparr>filename = name, content = Str []\<rparr>
      | Some None \<Rightarrow> \<lparr>filename = name, content = Str []\<rparr>
      | Some (Some text) \<Rightarrow>
          (case parse text of
             None \<Rightarrow> \<lparr>filename = name, content = Str []\<rparr>
           | Some c \<Rightarrow>
               (case get_field ''data'' c of
                  Inl e \<Rightarrow> \<lparr>filename = name, content = Str []\<rparr>
                | Inr d \<Rightarrow> \<lparr>filename = name, content = (if truthy d then d else Str [])\<rparr>)))"

definition loadDocuments :: "(string \<Rightarrow> jsval option) \<Rightarrow> (string \<times> string option) list \<Rightarrow> document list" where
  "loadDocuments parse dir =
     map (load_one parse dir) (filter (\<lambda>file. endsWith file ''.json'') (map fst dir))"

section \<open>Retriever\<close>

text \<open>
  \<open>Array.prototype.sort\<close> with a comparator: the sort is stable, and an element goes
  before another when the comparator's result is below zero (a NaN result counts as
  zero). It is modelled by insertion from the right.
\<close>

fun sort_insert :: "('a \<Rightarrow> 'a \<Rightarrow> double) \<Rightarrow> 'a \<Rightarrow> 'a list \<Rightarrow> 'a list" where
  "sort_insert cmp x [] = [x]"
| "sort_insert cmp x (y # ys) =
     (if dlt (cmp y x) zero then y # sort_insert cmp x ys else x # y # ys)"

definition js_sort :: "('a \<Rightarrow> 'a \<Rightarrow> double) \<Rightarrow> 'a list \<Rightarrow> 'a list" where
  "js_sort cmp xs = foldr (sort_insert cmp) xs []"

text \<open>The comparator \<open>(a, b) => b.score - a.score\<close>.\<close>

definition by_score :: "scored_document \<Rightarrow> scored_document \<Rightarrow> double" where
  "by_score a b = dsub (score b) (score a)"

text \<open>
  The network of a run is \<open>net\<close>: \<open>net n\<close> answers the \<open>n\<close>-th request that the run sends.
  The query's request is number 0 and the request of the document at index \<open>i\<close> is
  number \<open>i + 1\<close>, the order in which \<open>documents.map\<close> starts them.

  The \<open>try\<close> block in the body of \<open>documents.map\<close>: the document with its score, or a
  throw.
\<close>

definition score_doc_try ::
  "(jsval \<Rightarrow> double) \<Rightarrow> (nat \<Rightarrow> jsval \<Rightarrow> fetch_outcome) \<Rightarrow> jsval \<Rightarrow> nat \<times> document
     \<Rightarrow> error + scored_document" where
  "score_doc_try tn net queryEmbedding p =
     (case p of (i, doc) \<Rightarrow>
        (case getEmbedding (net (Suc i)) (content doc) of
           Inl e \<Rightarrow> Inl e
         | Inr embedding \<Rightarrow>
             (case cosineSimilarity tn queryEmbedding embedding of
                Inl e \<Rightarrow> Inl e
              | Inr s \<Rightarrow>
                  Inr \<lparr>filename = filename doc, content = content doc, score = s\<rparr>)))"

text \<open>The body of \<open>documents.map\<close> with its \<open>catch\<close>: the score is 0 after a throw.\<close>

definition score_doc ::
  "(jsval \<Rightarrow> double) \<Rightarrow> (nat \<Rightarrow> jsval \<Rightarrow> fetch_outcome) \<Rightarrow> jsval \<Rightarrow> nat \<times> document \<Rightarrow> scored_document" where
  "score_doc tn net queryEmbedding p =
     (case score_doc_try tn net queryEmbedding p of
        Inl e \<Rightarrow> (case p of (i, doc) \<Rightarrow>
                   \<lparr>filename = filename doc, content = content doc, score = zero\<rparr>)
      | Inr d \<Rightarrow> d)"

text \<open>
  \<open>retrieveRelevantDocsWithEmbeddings(query, documents)\<close>: the list it resolves to, and
  the texts for which an embedding was requested, in order.
\<close>

definition retrieveRelevantDocsWithEmbeddings ::
  "(jsval \<Rightarrow> double) \<Rightarrow> (nat \<Rightarrow> jsval \<Rightarrow> fetch_outcome) \<Rightarrow> string \<Rightarrow> document list
     \<Rightarrow> scored_document list \<times> jsval list" where
  "retrieveRelevantDocsWithEmbeddings tn net query documents =
     (case getEmbedding (net 0) (Str query) of
        Inl e \<Rightarrow> ([], [Str query])
      | Inr queryEmbedding \<Rightarrow>
          if \<not> truthy queryEmbedding \<or> \<not> isArray queryEmbedding then ([], [Str query])
          else let docsWithScores =
                     map (score_doc tn net queryEmbedding) (zip [0..<length documents] documents)
               in (js_sort by_score (filter (\<lambda>doc. dgt (score doc) half) docsWithScores),
                   Str query # map content documents))"

section \<open>Answer generator and orchestrator\<close>

definition apology :: string where
  "apology = ''Sorry, I encountered an error while generating an answer.''"

definition prompt :: "string \<Rightarrow> string \<Rightarrow> string" where
  "prompt query context =
     ''Context: '' @ context @ [CHR 0x0A, CHR 0x0A] @ ''Question: '' @ query
       @ [CHR 0x0A, CHR 0x0A] @ ''Answer:''"

text \<open>
  \<open>generateAnswerWithOpenAI(query, context)\<close>. The chat-completion service is the
  parameter \<open>chat\<close>, from the user message to the completion object or a throw.
\<close>

definition generateAnswerWithOpenAI :: "(string \<Rightarrow> error + jsval) \<Rightarrow> string \<Rightarrow> string \<Rightarrow> jsval" where
  "generateAnswerWithOpenAI chat query context =
     (case chat (prompt query context) of
        Inl e \<Rightarrow> Str apology
      | Inr completion \<Rightarrow>
          (case get_field ''choices'' completion of
             Inl e \<Rightarrow> Str apology
           | Inr cs \<Rightarrow>
               (case get_index0 cs of
                  Inl e \<Rightarrow> Str apology
                | Inr c \<Rightarrow>
                    (case get_field ''message'' c of
                       Inl e \<Rightarrow> Str apology
                     | Inr m \<Rightarrow>
                         (case get_field ''content'' m of
                            Inl e \<Rightarrow> Str apology
                          | Inr a \<Rightarrow> a)))))"

text \<open>
  What a run of \<open>main\<close> shows: the lines it prints after the question, and the
  arguments of every call of the answer generator. \<open>Inl\<close> is a throw out of \<open>main\<close>;
  the one statement that can throw is \<open>join\<close> on the contents.
\<close>

datatype printed = NoRelevantDocuments | ContextFrom string | Answer jsval

record run =
  shown :: "printed list"
  answer_calls :: "(string \<times> string) list"

definition main ::
  "(jsval \<Rightarrow> double) \<Rightarrow> (jsval \<Rightarrow> string) \<Rightarrow> (string \<Rightarrow> jsval option) \<Rightarrow> (nat \<Rightarrow> jsval \<Rightarrow> fetch_outcome)
     \<Rightarrow> (string \<Rightarrow> error + jsval) \<Rightarrow> (string \<times> string option) list \<Rightarrow> string \<Rightarrow> error + run" where
  "main tn ts parse net chat dir query =
     (let documents = loadDocuments parse dir;
          relevantDocs = fst (retrieveRelevantDocsWithEmbeddings tn net query documents)
      in if length relevantDocs = 0
         then Inr \<lparr>shown = [NoRelevantDocuments], answer_calls = []\<rparr>
         else case join_throwing ts [CHR 0x0A, CHR 0x0A] (map (\<lambda>doc. content doc) relevantDocs) of
                Inl e \<Rightarrow> Inl e
              | Inr context \<Rightarrow>
                  let answer = generateAnswerWithOpenAI chat query context
                  in Inr \<lparr>shown = [ContextFrom (join '', '' (map filename relevantDocs)),
                                  Answer answer],
                          answer_calls = [(query, context)]\<rparr>)"


section \<open>Sample inputs\<close>

text \<open>
  ToNumber on the values that are not numbers, for the examples: \<open>null\<close> and the
  booleans as the language has them, NaN elsewhere (the examples hold numbers only).
\<close>

fun tn_sample :: "jsval \<Rightarrow> double" where
  "tn_sample Null = zero"
| "tn_sample (Bool b) = (if b then one else zero)"
| "tn_sample _ = NaN"

text \<open>A network on which every request is rejected.\<close>

definition net_down :: "nat \<Rightarrow> jsval \<Rightarrow> fetch_outcome" where
  "net_down n text = Rejected"

text \<open>A service that answers 200 with \<open>{"data": [{}]}\<close>: no embedding in the reply.\<close>

definition net_no_embedding :: "nat \<Rightarrow> jsval \<Rightarrow> fetch_outcome" where
  "net_no_embedding n text = Response 200 (Some (Obj [(''data'', Arr [Obj []])]))"

text \<open>A service that answers 200 with \<open>{"data": []}\<close>: reading \<open>data[0].embedding\<close> throws.\<close>

definition net_empty_data :: "nat \<Rightarrow> jsval \<Rightarrow> fetch_outcome" where
  "net_empty_data n text = Response 200 (Some (Obj [(''data'', Arr [])]))"

definition doc_a :: document where
  "doc_a = \<lparr>filename = ''a.json'', content = Str ''A''\<rparr>"

text \<open>A reply of the embedding service that carries the vector \<open>v\<close>.\<close>

definition reply :: "jsval list \<Rightarrow> fetch_outcome" where
  "reply v = Response 200 (Some (Obj [(''data'', Arr [Obj [(''embedding'', Arr v)]])]))"

text \<open>The doubles 0.9, 0.6, 0.95 and 0.50001.\<close>

definition d090 :: double where
  "d090 = Fin 8106479329266893 1021"

definition d060 :: double where
  "d060 = Fin 5404319552844595 1021"

definition d095 :: double where
  "d095 = Fin 4278419646001971 1022"

definition d050001 :: double where
  "d050001 = Fin 4503689699363043 1021"

text \<open>
  A service that answers request 0 (the query) with \<open>[1, 0]\<close> and the requests of the five
  documents with unit vectors whose first components are 0.9, 0.5, 0.6, 0.95 and
  0.50001, the scores of the documents.
\<close>

fun vec_sample :: "nat \<Rightarrow> jsval list" where
  "vec_sample 0 = [Num one, Num zero]"
| "vec_sample (Suc 0) = [Num d090, Num (Fin 981536782893771 1023)]"
| "vec_sample (Suc (Suc 0)) = [Num half, Num (Fin 7800463371553963 1021)]"
| "vec_sample (Suc (Suc (Suc 0))) = [Num d060, Num (Fin 3602879701896397 1022)]"
| "vec_sample (Suc (Suc (Suc (Suc 0)))) = [Num d095, Num (Fin 703124266462913 1023)]"
| "vec_sample _ = [Num d050001, Num (Fin 487525710485715 1025)]"

definition net_sample :: "nat \<Rightarrow> jsval \<Rightarrow> fetch_outcome" where
  "net_sample n text = reply (vec_sample n)"

text \<open>
  A service that answers the query with \<open>[1]\<close> and every document with
  \<open>[{"toString": 0}]\<close>, an array whose element has no primitive.
\<close>

definition net_unconvertible :: "nat \<Rightarrow> jsval \<Rightarrow> fetch_outcome" where
  "net_unconvertible n text =
     (if n = 0 then reply [Num one] else reply [Obj [(''toString'', Num zero)]])"

definition docs_sample :: "document list" where
  "docs_sample =
     [\<lparr>filename = ''a.json'', content = Str ''A''\<rparr>, \<lparr>filename = ''b.json'', content = Str ''B''\<rparr>,
      \<lparr>filename = ''c.json'', content = Str ''C''\<rparr>, \<lparr>filename = ''d.json'', content = Str ''D''\<rparr>,
      \<lparr>filename = ''e.json'', content = Str ''E''\<rparr>]"

definition scored :: "string \<Rightarrow> string \<Rightarrow> double \<Rightarrow> scored_document" where
  "scored f c s = \<lparr>filename = f, content = Str c, score = s\<rparr>"

text \<open>
  A directory of eight entries and a parser that knows five texts: an object with
  \<open>data\<close>, an object without, \<open>null\<close>, an array, and an object whose \<open>data\<close> is 0.
\<close>

definition parse_sample :: "string \<Rightarrow> jsval option" where
  "parse_sample text =
     (if text = ''hello'' then Some (Obj [(''data'', Str ''Hello'')])
      else if text = ''nodata'' then Some (Obj [(''title'', Str ''T'')])
      else if text = ''null'' then Some Null
      else if text = ''list'' then Some (Arr [Num one])
      else if text = ''nought'' then Some (Obj [(''data'', Num zero)])
      else None)"

definition dir_sample :: "(string \<times> string option) list" where
  "dir_sample = [(''a.json'', Some ''hello''), (''notes.txt'', Some ''hello''),
     (''b.json'', Some ''broken''), (''c.json'', Some ''nodata''), (''d.json'', None),
     (''e.json'', Some ''null''), (''f.json'', Some ''list''), (''g.json'', Some ''nought'')]"








text \<open>The double \<open>1e200\<close>.\<close>

definition d1e200 :: double where
  "d1e200 = Fin 2941796710330669 1687"

section \<open>Evaluation of the arithmetic\<close>

declare bitlen.simps [simp del] isqrt.simps [simp del] normalise.simps [simp del]

lemma bitlen_eval:
  "bitlen 0 = 0"
  "bitlen (Suc 0) = 1"
  "bitlen (numeral Num.One) = 1"
  "bitlen (numeral (Num.Bit0 w)) = 1 + bitlen (numeral w)"
  "bitlen (numeral (Num.Bit1 w)) = 1 + bitlen (numeral w)"
  by (simp_all add: bitlen.simps [of 0] bitlen.simps [of "Suc 0"] bitlen.simps [of "numeral v" for v])

lemma isqrt_eval:
  "isqrt 0 = 0"
  "isqrt (Suc 0) = 1"
  "isqrt (numeral w) =
     (let r = 2 * isqrt (numeral w div 4) in if (r + 1) * (r + 1) \<le> numeral w then r + 1 else r)"
  by (simp_all add: isqrt.simps [of 0] isqrt.simps [of "Suc 0"] isqrt.simps [of "numeral w"])

lemma normalise_eval:
  "normalise 0 k = Fin 0 0"
  "normalise 1 k = Fin 1 k"
  "normalise (- 1) k = Fin (- 1) k"
  "normalise (numeral (Num.Bit0 w)) k = normalise (numeral w) (Suc k)"
  "normalise (numeral (Num.Bit1 w)) k = Fin (numeral (Num.Bit1 w)) k"
  "normalise (- numeral (Num.Bit0 w)) k = normalise (- numeral w) (Suc k)"
  "normalise (- numeral (Num.Bit1 w)) k = Fin (- numeral (Num.Bit1 w)) k"
  by (simp_all add: normalise.simps [of 0] normalise.simps [of 1] normalise.simps [of "- 1"]
      normalise.simps [of "numeral v" for v] normalise.simps [of "- numeral v" for v])

lemma compare_zero_eval:
  "deq (Fin m k) (Fin 0 0) = (m = 0)"
  "deq (Fin 0 0) (Fin m k) = (m = 0)"
  "dlt (Fin m k) (Fin 0 0) = (m < 0)"
  "dlt (Fin 0 0) (Fin m k) = (0 < m)"
  by (simp_all add: zero_less_mult_iff mult_less_0_iff)

lemmas eval_double = round_double_def round_magnitude_def finish_def Let_def bitlen_eval isqrt_eval normalise_eval
  zero_def one_def half_def of_int_d_def compare_zero_eval

section \<open>Multiplications that throw\<close>

lemma map_throwing_multiply:
  "map_throwing (\<lambda>i. multiply tn (as ! i) (bs ! i)) ns =
     (if \<exists>i \<in> set ns. no_primitive (as ! i) \<or> no_primitive (bs ! i) then Inl TypeError
      else Inr (map (\<lambda>i. dmul (num_of tn (as ! i)) (num_of tn (bs ! i))) ns))"
  by (induction ns) (auto simp: multiply_def to_number_def)

lemma reduce_throwing_squares:
  "reduce_throwing
     (\<lambda>sum a. case multiply tn a a of Inl e \<Rightarrow> Inl e | Inr square \<Rightarrow> Inr (dadd sum square)) z xs =
     (if list_ex no_primitive xs then Inl TypeError
      else Inr (foldl (\<lambda>sum a. dadd sum (dmul (num_of tn a) (num_of tn a))) z xs))"
  by (induction xs arbitrary: z) (auto simp: multiply_def to_number_def)

lemma list_ex_take:
  assumes "L \<le> length xs"
  shows "list_ex P (take L xs) \<longleftrightarrow> (\<exists>i < L. P (xs ! i))"
proof -
  have "take L xs = map (\<lambda>i. xs ! i) [0..<L]"
    using assms by (simp add: list_eq_iff_nth_eq)
  then show ?thesis by (auto simp: list_ex_iff)
qed

lemma unconvertible_nth:
  "unconvertible as bs \<longleftrightarrow>
     (\<exists>i < min (length as) (length bs). no_primitive (as ! i) \<or> no_primitive (bs ! i))"
proof -
  have "list_ex no_primitive (take (min (length as) (length bs)) as) \<longleftrightarrow>
      (\<exists>i < min (length as) (length bs). no_primitive (as ! i))"
    by (rule list_ex_take) simp
  moreover have "list_ex no_primitive (take (min (length as) (length bs)) bs) \<longleftrightarrow>
      (\<exists>i < min (length as) (length bs). no_primitive (bs ! i))"
    by (rule list_ex_take) simp
  ultimately show ?thesis
    unfolding unconvertible_def Let_def by blast
qed

lemma truthy_array: "isArray v \<Longrightarrow> truthy v"
  by (cases v) simp_all

lemma cosineSimilarity_value:
  "cosineSimilarity tn a b =
     (if isArray a \<and> isArray b \<and> unconvertible (elems a) (elems b) then Inl TypeError
      else Inr (cosine tn a b))"
proof (cases "isArray a \<and> isArray b")
  case False
  then show ?thesis by (auto simp: cosineSimilarity_def cosine_def)
next
  case True
  define L where "L = min (length (elems a)) (length (elems b))"
  from True have t: "truthy a" "truthy b" by (simp_all add: truthy_array)
  have m: "(\<exists>i \<in> set [0..<L]. no_primitive (elems a ! i) \<or> no_primitive (elems b ! i))
      \<longleftrightarrow> unconvertible (elems a) (elems b)"
    unfolding unconvertible_nth L_def by auto
  show ?thesis
  proof (cases "unconvertible (elems a) (elems b)")
    case u: True
    then have "L \<noteq> 0" by (auto simp: unconvertible_nth L_def)
    with u True t m show ?thesis
      unfolding cosineSimilarity_def Let_def L_def [symmetric]
      by (simp add: map_throwing_multiply)
  next
    case u: False
    then have "\<not> list_ex no_primitive (take L (elems a))" "\<not> list_ex no_primitive (take L (elems b))"
      by (simp_all add: unconvertible_def Let_def L_def)
    with u True t m show ?thesis
      unfolding cosineSimilarity_def cosine_def Let_def L_def [symmetric]
      by (simp add: map_throwing_multiply reduce_throwing_squares)
  qed
qed

lemma cosineSimilarity_not_arrays:
  "\<not> isArray a \<or> \<not> isArray b \<Longrightarrow> cosineSimilarity tn a b = Inr zero"
  by (auto simp: cosineSimilarity_def)

lemma cosineSimilarity_arrays_value:
  "cosineSimilarity tn (Arr as) (Arr bs) =
     (if unconvertible as bs then Inl TypeError else Inr (cosine tn (Arr as) (Arr bs)))"
  by (simp add: cosineSimilarity_value)

lemma convertible_numbers: "\<not> unconvertible (map Num ds) (map Num es)"
  by (simp add: unconvertible_nth)

lemma cosineSimilarity_numbers:
  "cosineSimilarity tn (Arr (map Num ds)) (Arr (map Num es)) =
     Inr (cosine tn (Arr (map Num ds)) (Arr (map Num es)))"
  by (simp add: cosineSimilarity_arrays_value convertible_numbers)

lemma score_doc_fields:
  "filename (score_doc tn net qe (i, doc)) = filename doc"
  "content (score_doc tn net qe (i, doc)) = content doc"
  "score (score_doc tn net qe (i, doc)) =
     (case cosineSimilarity tn qe (generateEmbeddings (net (Suc i)) (content doc)) of
        Inl e \<Rightarrow> zero
      | Inr s \<Rightarrow> s)"
  by (simp_all add: score_doc_def score_doc_try_def getEmbedding_def split: sum.splits)

lemma score_doc_value:
  "score_doc tn net qe (i, doc) =
     \<lparr>filename = filename doc, content = content doc,
      score = (case cosineSimilarity tn qe (generateEmbeddings (net (Suc i)) (content doc)) of
                 Inl e \<Rightarrow> zero
               | Inr s \<Rightarrow> s)\<rparr>"
  by (simp add: score_doc_def score_doc_try_def getEmbedding_def split: sum.splits)

section \<open>Zero vectors\<close>

lemma round_double_0: "round_double 0 e = Fin 0 0"
  by (simp add: round_double_def round_magnitude_def finish_def Let_def bitlen_eval)

lemma dmul_zero_zero: "dmul zero zero = zero"
  by (simp add: zero_def round_double_0)

lemma dadd_zero_zero: "dadd zero zero = zero"
  by (simp add: zero_def round_double_0)

lemma dsqrt_zero: "dsqrt zero = zero"
  by (simp add: zero_def)

lemma deq_zero_zero: "deq zero zero"
  by (simp add: zero_def)

lemma not_zero_gt_half: "\<not> dgt zero half"
  by (simp add: dgt_def zero_def half_def)

lemma sumsq_zeros:
  "foldl (\<lambda>sum a. dadd sum (dmul (num_of tn a) (num_of tn a))) zero (replicate n (Num zero)) = zero"
  by (induction n) (simp_all add: num_of_def dmul_zero_zero dadd_zero_zero)

lemma cosine_fallback_left: "cosine tn fallback v = zero"
  by (simp add: cosine_def fallback_def Let_def sumsq_zeros dsqrt_zero deq_zero_zero)

lemma cosine_fallback_right: "cosine tn v fallback = zero"
  by (simp add: cosine_def fallback_def Let_def sumsq_zeros dsqrt_zero deq_zero_zero)

section \<open>Signs and order of doubles\<close>

lemma bitlen_pos: "0 < n \<Longrightarrow> 0 < bitlen n"
  by (subst bitlen.simps) simp

lemma bitlen_bounds: "0 < n \<Longrightarrow> 2 ^ (bitlen n - 1) \<le> n \<and> n < 2 ^ bitlen n"
proof (induction n rule: bitlen.induct)
  case (1 n)
  show ?case
  proof (cases "n div 2 = 0")
    case True
    with 1 have "n = 1" by (cases n) auto
    then show ?thesis by (simp add: bitlen_eval)
  next
    case False
    then have pos: "0 < n div 2" by simp
    from 1 pos have ih: "2 ^ (bitlen (n div 2) - 1) \<le> n div 2 \<and> n div 2 < 2 ^ bitlen (n div 2)"
      by simp
    have b: "bitlen n = Suc (bitlen (n div 2))"
      using 1(2) by (subst bitlen.simps) simp
    from bitlen_pos [OF pos] obtain j where j: "bitlen (n div 2) = Suc j"
      by (cases "bitlen (n div 2)") auto
    from ih j have "2 ^ j \<le> n div 2" "n div 2 < 2 * 2 ^ j" by simp_all
    then have "2 * 2 ^ j \<le> n" "n < 2 * (2 * 2 ^ j)" by linarith+
    then show ?thesis by (simp add: b j)
  qed
qed

lemma normalise_shape: "\<exists>m' k'. normalise m k = Fin m' k' \<and> m' * 2 ^ k' = m * 2 ^ k"
proof (induction m k rule: normalise.induct)
  case (1 m k)
  show ?case
  proof (cases "m = 0")
    case True
    then show ?thesis by (simp add: normalise.simps [of 0])
  next
    case False
    show ?thesis
    proof (cases "even m")
      case True
      with False 1 obtain m' k' where n: "normalise (m div 2) (Suc k) = Fin m' k'"
        and v: "m' * 2 ^ k' = (m div 2) * 2 ^ Suc k" by blast
      from True have "(m div 2) * 2 = m" by simp
      then have "(m div 2) * 2 ^ Suc k = m * 2 ^ k"
        by (metis mult.assoc mult.commute power_Suc)
      with n v False True show ?thesis by (subst normalise.simps) simp
    next
      case odd: False
      with False show ?thesis by (subst normalise.simps) simp
    qed
  qed
qed

lemma sgn_scaled:
  fixes m x :: int
  assumes "m * 2 ^ k = x * 2 ^ t"
  shows "sgn m = sgn x"
proof -
  have "sgn (m * 2 ^ k) = sgn m" "sgn (x * 2 ^ t) = sgn x"
    by (simp_all add: sgn_mult)
  with assms show ?thesis by simp
qed

lemma dsign_normalise: "dsign (normalise m k) = sgn m"
proof -
  from normalise_shape [of m k] obtain m' k'
    where n: "normalise m k = Fin m' k'" and v: "m' * 2 ^ k' = m * 2 ^ k"
    by blast
  from sgn_scaled [OF v] n show ?thesis by simp
qed

lemma dsign_finish:
  assumes "0 < q" "sg = 1 \<or> sg = - 1"
  shows "dsign (finish sg q t) = sg"
proof (cases "2098 < bitlen q + t")
  case True
  with assms show ?thesis by (auto simp: finish_def)
next
  case False
  have "sgn (sg * int q) = sg" using assms by (auto simp: sgn_mult)
  with False assms(1) show ?thesis by (simp add: finish_def dsign_normalise)
qed

lemma round_double_magnitude:
  assumes "0 < a" "0 \<le> e" "e < e + int (bitlen a) - 53"
  shows "0 < a div 2 ^ nat (int (bitlen a) - 53)"
proof -
  define s where "s = bitlen a - 54"
  from assms(3) have s: "bitlen a = 53 + Suc s" by (simp add: s_def)
  have n: "nat (int (bitlen a) - 53) = Suc s" by (simp add: s)
  from bitlen_bounds [OF assms(1)] s have "2 ^ (Suc s + 52) \<le> a" by (simp add: add.commute)
  then have "2 ^ Suc s * 2 ^ 52 \<le> a" by (simp only: power_add)
  moreover have "(2::nat) ^ Suc s * 1 \<le> 2 ^ Suc s * 2 ^ 52" by (rule mult_le_mono2) simp
  ultimately have "2 ^ Suc s \<le> a" by simp
  then have "1 \<le> a div 2 ^ Suc s"
    by (simp add: less_eq_div_iff_mult_less_eq)
  then show ?thesis by (simp add: n)
qed

lemma round_magnitude_pos: "0 < a div 2 ^ s \<Longrightarrow> 0 < round_magnitude a s"
  by (simp add: round_magnitude_def Let_def)

lemma dsign_round_double:
  assumes "m \<noteq> 0" "0 \<le> e"
  shows "dsign (round_double m e) = sgn m"
proof -
  define a where "a = nat \<bar>m\<bar>"
  define t where "t = max 0 (e + int (bitlen a) - 53)"
  define s where "s = nat (t - e)"
  have apos: "0 < a" using assms(1) by (simp add: a_def)
  have sg: "sgn m = 1 \<or> sgn m = - 1" using assms(1) by (simp add: sgn_if)
  have r: "round_double m e =
      (if s = 0 then finish (sgn m) a (nat e) else finish (sgn m) (round_magnitude a s) (nat t))"
    unfolding round_double_def Let_def a_def t_def s_def ..
  show ?thesis
  proof (cases "s = 0")
    case True
    with r have r': "round_double m e = finish (sgn m) a (nat e)" by simp
    show ?thesis unfolding r' by (rule dsign_finish [OF apos sg])
  next
    case False
    with r have r': "round_double m e = finish (sgn m) (round_magnitude a s) (nat t)" by simp
    from False have lt: "e < t" by (simp add: s_def)
    with assms(2) have teq: "t = e + int (bitlen a) - 53" by (simp add: t_def)
    then have seq: "s = nat (int (bitlen a) - 53)" by (simp add: s_def)
    from lt teq have "e < e + int (bitlen a) - 53" by simp
    from round_double_magnitude [OF apos assms(2) this] have "0 < a div 2 ^ s"
      by (simp add: seq)
    then have qpos: "0 < round_magnitude a s" by (rule round_magnitude_pos)
    show ?thesis unfolding r' by (rule dsign_finish [OF qpos sg])
  qed
qed

lemma dlt_zero_dsign: "dlt x zero \<longleftrightarrow> dsign x < 0"
  by (cases x) (simp_all add: zero_def sgn_if mult_less_0_iff)

lemma scale_min:
  fixes m :: int
  shows "m * 2 ^ (k1 - min k1 k2) * 2 ^ min k1 k2 = m * 2 ^ k1"
  by (simp add: mult.assoc flip: power_add)

lemma dlt_Fin: "dlt (Fin m1 k1) (Fin m2 k2) \<longleftrightarrow> m1 * 2 ^ k1 < m2 * 2 ^ k2"
proof -
  define k where "k = min k1 k2"
  have "m1 * 2 ^ (k1 - k) < m2 * 2 ^ (k2 - k)
      \<longleftrightarrow> m1 * 2 ^ (k1 - k) * 2 ^ k < m2 * 2 ^ (k2 - k) * 2 ^ k"
    by simp
  also have "m1 * 2 ^ (k1 - k) * 2 ^ k = m1 * 2 ^ k1"
    unfolding k_def by (rule scale_min)
  also have "m2 * 2 ^ (k2 - k) * 2 ^ k = m2 * 2 ^ k2"
    unfolding k_def using scale_min [of m2 k2 k1] by (simp add: min.commute)
  finally show ?thesis by (simp add: Let_def k_def)
qed

lemma deq_Fin: "deq (Fin m1 k1) (Fin m2 k2) \<longleftrightarrow> m1 * 2 ^ k1 = m2 * 2 ^ k2"
proof -
  define k where "k = min k1 k2"
  have "m1 * 2 ^ (k1 - k) = m2 * 2 ^ (k2 - k)
      \<longleftrightarrow> m1 * 2 ^ (k1 - k) * 2 ^ k = m2 * 2 ^ (k2 - k) * 2 ^ k"
    by simp
  also have "m1 * 2 ^ (k1 - k) * 2 ^ k = m1 * 2 ^ k1"
    unfolding k_def by (rule scale_min)
  also have "m2 * 2 ^ (k2 - k) * 2 ^ k = m2 * 2 ^ k2"
    unfolding k_def using scale_min [of m2 k2 k1] by (simp add: min.commute)
  finally show ?thesis by (simp add: Let_def k_def)
qed

declare dlt.simps(1) [simp del] deq.simps(1) [simp del]

lemma dge_total: "\<not> is_nan a \<Longrightarrow> \<not> is_nan b \<Longrightarrow> \<not> dlt a b \<Longrightarrow> dge a b"
  by (cases a; cases b) (auto simp: dge_def dlt_Fin deq_Fin)

lemma dlt_imp_dge: "dlt a b \<Longrightarrow> dge b a"
  by (simp add: dge_def)

lemma dge_trans: "dge a b \<Longrightarrow> dge b c \<Longrightarrow> dge a c"
  by (cases a; cases b; cases c) (auto simp: dge_def dlt_Fin deq_Fin)

lemma dgt_not_nan: "dgt a b \<Longrightarrow> \<not> is_nan a"
  by (cases a; cases b) (auto simp: dgt_def)

lemma dsign_round_double_all: "0 \<le> e \<Longrightarrow> dsign (round_double m e) = sgn m"
  by (cases "m = 0") (simp_all add: round_double_0 dsign_round_double)

lemma dsub_Fin_sign:
  "dsign (dsub (Fin m1 k1) (Fin m2 k2)) = sgn (m1 * 2 ^ k1 - m2 * 2 ^ k2)"
proof -
  define k where "k = min k1 k2"
  have v1: "m1 * 2 ^ (k1 - k) * 2 ^ k = m1 * 2 ^ k1"
    unfolding k_def by (rule scale_min)
  have v2: "m2 * 2 ^ (k2 - k) * 2 ^ k = m2 * 2 ^ k2"
    unfolding k_def using scale_min [of m2 k2 k1] by (simp only: min.commute)
  have v: "(m1 * 2 ^ (k1 - k) - m2 * 2 ^ (k2 - k)) * 2 ^ k = m1 * 2 ^ k1 - m2 * 2 ^ k2"
    by (simp only: left_diff_distrib v1 v2)
  have s: "sgn (m1 * 2 ^ (k1 - k) - m2 * 2 ^ (k2 - k)) = sgn (m1 * 2 ^ k1 - m2 * 2 ^ k2)"
    using sgn_scaled [of "m1 * 2 ^ (k1 - k) - m2 * 2 ^ (k2 - k)" k "m1 * 2 ^ k1 - m2 * 2 ^ k2" 0] v
    by simp
  show ?thesis
  proof (cases "m1 = 0")
    case True
    then show ?thesis by (simp add: dsub_def dsign_round_double_all sgn_mult)
  next
    case m1: False
    show ?thesis
    proof (cases "m2 = 0")
      case True
      with m1 show ?thesis by (simp add: dsub_def dsign_round_double_all sgn_mult)
    next
      case False
      with m1 have "dsub (Fin m1 k1) (Fin m2 k2) =
          round_double (m1 * 2 ^ (k1 - k) - m2 * 2 ^ (k2 - k)) (int k)"
        by (simp add: dsub_def Let_def k_def)
      then show ?thesis by (simp add: dsign_round_double_all s)
    qed
  qed
qed

lemma compare_by_difference:
  assumes "\<not> is_nan a" "\<not> is_nan b"
  shows "dlt (dsub a b) zero \<longleftrightarrow> dlt a b"
proof (cases a)
  case (Fin m1 k1)
  show ?thesis
  proof (cases b)
    case (Fin m2 k2)
    have "dlt (dsub (Fin m1 k1) (Fin m2 k2)) zero \<longleftrightarrow> m1 * 2 ^ k1 - m2 * 2 ^ k2 < 0"
      by (simp add: dlt_zero_dsign dsub_Fin_sign sgn_if)
    then show ?thesis using \<open>a = Fin m1 k1\<close> Fin by (simp add: dlt_Fin)
  qed (use Fin assms in \<open>simp_all add: dsub_def zero_def\<close>)
qed (use assms in \<open>cases b; simp add: dsub_def zero_def\<close>)+

section \<open>Sorting by score\<close>

lemma mset_sort_insert: "mset (sort_insert cmp x ys) = add_mset x (mset ys)"
  by (induction ys) simp_all

lemma mset_js_sort: "mset (js_sort cmp xs) = mset xs"
  by (induction xs) (simp_all add: js_sort_def mset_sort_insert)

lemma set_sort_insert: "set (sort_insert cmp x ys) = insert x (set ys)"
  by (induction ys) auto

lemma sorted_sort_insert:
  assumes "sorted_wrt (\<lambda>a b. dge (score a) (score b)) ys"
    and "\<not> is_nan (score x)" and "\<forall>y \<in> set ys. \<not> is_nan (score y)"
  shows "sorted_wrt (\<lambda>a b. dge (score a) (score b)) (sort_insert by_score x ys)"
  using assms
proof (induction ys)
  case Nil
  then show ?case by simp
next
  case (Cons y ys)
  have c: "dlt (by_score y x) zero \<longleftrightarrow> dlt (score x) (score y)"
    using Cons.prems by (simp add: by_score_def compare_by_difference)
  show ?case
  proof (cases "dlt (score x) (score y)")
    case True
    have "sorted_wrt (\<lambda>a b. dge (score a) (score b)) (sort_insert by_score x ys)"
      using Cons by simp
    moreover have "\<forall>z \<in> set (sort_insert by_score x ys). dge (score y) (score z)"
      using Cons.prems(1) True by (auto simp: set_sort_insert dlt_imp_dge)
    ultimately show ?thesis using True c by simp
  next
    case False
    then have xy: "dge (score x) (score y)"
      using Cons.prems by (simp add: dge_total)
    have "\<forall>z \<in> set ys. dge (score x) (score z)"
      using Cons.prems(1) xy by (auto intro: dge_trans)
    with xy Cons.prems(1) False c show ?thesis by simp
  qed
qed

lemma sorted_js_sort:
  assumes "\<forall>x \<in> set xs. \<not> is_nan (score x)"
  shows "sorted_wrt (\<lambda>a b. dge (score a) (score b)) (js_sort by_score xs)"
  using assms
proof (induction xs)
  case Nil
  then show ?case by (simp add: js_sort_def)
next
  case (Cons x xs)
  have "set (js_sort by_score xs) = set xs"
    by (metis mset_js_sort set_mset_mset)
  with Cons show ?case
    by (simp add: js_sort_def sorted_sort_insert)
qed


section \<open>The sample run\<close>

lemma generateEmbeddings_reply: "fetch text = reply v \<Longrightarrow> generateEmbeddings fetch text = Arr v"
  by (simp add: generateEmbeddings_def generateEmbeddings_try_def reply_def response_ok_def)

lemma cos2:
  "cosine tn (Arr [Num a1, Num a2]) (Arr [Num b1, Num b2]) =
     (let dotProduct = dadd (dadd zero (dmul a1 b1)) (dmul a2 b2);
          normA = dsqrt (dadd (dadd zero (dmul a1 a1)) (dmul a2 a2));
          normB = dsqrt (dadd (dadd zero (dmul b1 b1)) (dmul b2 b2))
      in if deq normA zero \<or> deq normB zero then zero else ddiv dotProduct (dmul normA normB))"
  by (simp add: cosine_def Let_def num_of_def upt_rec [of 0] upt_rec [of "Suc 0"])

lemma cosineSimilarity_pair:
  "cosineSimilarity tn (Arr [Num a1, Num a2]) (Arr [Num b1, Num b2]) =
     Inr (cosine tn (Arr [Num a1, Num a2]) (Arr [Num b1, Num b2]))"
  using cosineSimilarity_numbers [of tn "[a1, a2]" "[b1, b2]"] by simp

lemmas eval_sample = eval_double dlt.simps deq.simps d090_def d060_def d095_def d050001_def

lemma cos_sample:
  "cosine tn (Arr [Num one, Num zero]) (Arr [Num d090, Num (Fin 981536782893771 1023)]) = d090"
  "cosine tn (Arr [Num one, Num zero]) (Arr [Num half, Num (Fin 7800463371553963 1021)]) = half"
  "cosine tn (Arr [Num one, Num zero]) (Arr [Num d060, Num (Fin 3602879701896397 1022)]) = d060"
  "cosine tn (Arr [Num one, Num zero]) (Arr [Num d095, Num (Fin 703124266462913 1023)]) = d095"
  "cosine tn (Arr [Num one, Num zero]) (Arr [Num d050001, Num (Fin 487525710485715 1025)]) = d050001"
  by (simp_all add: cos2 eval_sample cong: let_weak_cong split del: if_split)

lemma threshold_sample:
  "dgt d090 half" "\<not> dgt half half" "dgt d060 half" "dgt d095 half" "dgt d050001 half"
  by (simp_all add: dgt_def eval_sample)

lemma generateEmbeddings_net_sample: "generateEmbeddings (net_sample n) text = Arr (vec_sample n)"
  by (simp add: generateEmbeddings_def generateEmbeddings_try_def net_sample_def reply_def
      response_ok_def)

lemma scored_docs_sample:
  "map (score_doc tn net_sample (Arr [Num one, Num zero])) (zip [0..<length docs_sample] docs_sample) =
     [scored ''a.json'' ''A'' d090, scored ''b.json'' ''B'' half, scored ''c.json'' ''C'' d060,
      scored ''d.json'' ''D'' d095, scored ''e.json'' ''E'' d050001]"
  by (simp add: docs_sample_def score_doc_value scored_def
      generateEmbeddings_net_sample cosineSimilarity_pair cos_sample
      upt_rec [of 0] upt_rec [of "Suc 0"] upt_rec [of "Suc (Suc 0)"] upt_rec [of "Suc (Suc (Suc 0))"]
      upt_rec [of "Suc (Suc (Suc (Suc 0)))"])

lemma score_scored: "score (scored f c s) = s"
  by (simp add: scored_def)

lemma sort_sample:
  "js_sort by_score [scored ''a.json'' ''A'' d090, scored ''c.json'' ''C'' d060,
      scored ''d.json'' ''D'' d095, scored ''e.json'' ''E'' d050001] =
     [scored ''d.json'' ''D'' d095, scored ''a.json'' ''A'' d090, scored ''c.json'' ''C'' d060,
      scored ''e.json'' ''E'' d050001]"
  by (simp add: js_sort_def by_score_def scored_def compare_by_difference dlt_Fin
      d090_def d060_def d095_def d050001_def)

lemma retrieve_sample:
  "retrieveRelevantDocsWithEmbeddings tn net_sample ''q'' docs_sample =
     ([scored ''d.json'' ''D'' d095, scored ''a.json'' ''A'' d090, scored ''c.json'' ''C'' d060,
       scored ''e.json'' ''E'' d050001],
      [Str ''q'', Str ''A'', Str ''B'', Str ''C'', Str ''D'', Str ''E''])"
proof -
  have q: "generateEmbeddings (net_sample 0) (Str ''q'') = Arr [Num one, Num zero]"
    by (simp add: generateEmbeddings_reply [of _ _ "vec_sample 0"] net_sample_def)
  show ?thesis
    by (simp add: retrieveRelevantDocsWithEmbeddings_def getEmbedding_def q Let_def
        scored_docs_sample score_scored threshold_sample sort_sample) (simp add: docs_sample_def)
qed

lemma sort_three:
  "js_sort by_score [scored ''a.json'' ''A'' d090, scored ''c.json'' ''C'' d060,
      scored ''d.json'' ''D'' d095] =
     [scored ''d.json'' ''D'' d095, scored ''a.json'' ''A'' d090, scored ''c.json'' ''C'' d060]"
  by (simp add: js_sort_def by_score_def scored_def compare_by_difference dlt_Fin
      d090_def d060_def d095_def)

section \<open>Cosine similarity over the common prefix\<close>

lemma foldl_map_fuse: "foldl (\<lambda>s a. f s (g a)) z xs = foldl f z (map g xs)"
  by (induction xs arbitrary: z) simp_all

lemma take_as_map_nth: "L \<le> length xs \<Longrightarrow> take L xs = map (\<lambda>i. xs ! i) [0..<L]"
  by (simp add: list_eq_iff_nth_eq)

lemma sumsq_prefix:
  assumes "L \<le> length xs"
  shows "dsqrt (foldl (\<lambda>sum a. dadd sum (dmul (num_of tn a) (num_of tn a))) zero (take L xs)) =
    prefix_norm tn L xs"
proof -
  have "map (\<lambda>a. dmul (num_of tn a) (num_of tn a)) (take L xs) =
      map (\<lambda>i. dmul (num_of tn (xs ! i)) (num_of tn (xs ! i))) [0..<L]"
    by (subst take_as_map_nth [OF assms]) (simp add: comp_def)
  with foldl_map_fuse [of dadd "\<lambda>a. dmul (num_of tn a) (num_of tn a)" zero "take L xs"]
  show ?thesis
    by (simp only: prefix_norm_def float_sum_def)
qed

lemma cosine_arrays:
  "cosine tn (Arr as) (Arr bs) =
     (let L = min (length as) (length bs)
      in if L = 0 \<or> deq (prefix_norm tn L as) zero \<or> deq (prefix_norm tn L bs) zero then zero
         else ddiv (prefix_dot tn L as bs) (dmul (prefix_norm tn L as) (prefix_norm tn L bs)))"
proof -
  define L where "L = min (length as) (length bs)"
  have la: "L \<le> length as" and lb: "L \<le> length bs" by (simp_all add: L_def)
  have c: "cosine tn (Arr as) (Arr bs) =
      (if L = 0 then zero
       else if deq (prefix_norm tn L as) zero \<or> deq (prefix_norm tn L bs) zero then zero
       else ddiv (prefix_dot tn L as bs) (dmul (prefix_norm tn L as) (prefix_norm tn L bs)))"
    unfolding cosine_def Let_def
    by (simp add: sumsq_prefix [OF la] sumsq_prefix [OF lb] prefix_dot_def float_sum_def
        flip: L_def)
  show ?thesis
    unfolding Let_def L_def [symmetric] c by (cases "L = 0") simp_all
qed

lemma prefix_norm_take:
  assumes "L \<le> n"
  shows "prefix_norm tn L (take n xs) = prefix_norm tn L xs"
proof -
  have "map (\<lambda>i. dmul (num_of tn (take n xs ! i)) (num_of tn (take n xs ! i))) [0..<L] =
      map (\<lambda>i. dmul (num_of tn (xs ! i)) (num_of tn (xs ! i))) [0..<L]"
    by (rule map_cong) (use assms in auto)
  then show ?thesis by (simp only: prefix_norm_def)
qed

lemma prefix_dot_take:
  assumes "L \<le> n" "L \<le> n'"
  shows "prefix_dot tn L (take n as) (take n' bs) = prefix_dot tn L as bs"
proof -
  have "map (\<lambda>i. dmul (num_of tn (take n as ! i)) (num_of tn (take n' bs ! i))) [0..<L] =
      map (\<lambda>i. dmul (num_of tn (as ! i)) (num_of tn (bs ! i))) [0..<L]"
    by (rule map_cong) (use assms in auto)
  then show ?thesis by (simp only: prefix_dot_def)
qed

lemma cosine_take:
  "cosine tn (Arr as) (Arr bs) =
     cosine tn (Arr (take (min (length as) (length bs)) as))
       (Arr (take (min (length as) (length bs)) bs))"
proof -
  define L where "L = min (length as) (length bs)"
  have l: "min (length (take L as)) (length (take L bs)) = L"
    by (simp add: L_def)
  have "cosine tn (Arr (take L as)) (Arr (take L bs)) =
      (if L = 0 \<or> deq (prefix_norm tn L as) zero \<or> deq (prefix_norm tn L bs) zero then zero
       else ddiv (prefix_dot tn L as bs) (dmul (prefix_norm tn L as) (prefix_norm tn L bs)))"
    unfolding cosine_arrays [of tn "take L as" "take L bs"] l Let_def
    by (simp only: prefix_norm_take [OF order_refl] prefix_dot_take [OF order_refl order_refl])
  also have "\<dots> = cosine tn (Arr as) (Arr bs)"
    unfolding cosine_arrays [of tn as bs] Let_def L_def ..
  finally show ?thesis unfolding L_def ..
qed

lemma cosine_example:
  "cosine tn (Arr [Num one, Num zero, Num zero]) (Arr [Num one, Num zero]) = one"
  by (simp add: cosine_def num_of_def upt_rec [of 0] upt_rec [of "Suc 0"] eval_double
      cong: let_weak_cong split del: if_split)


lemma prefix1:
  "prefix_dot tn (Suc 0) (Num a1 # as) (Num b1 # bs) = dadd zero (dmul a1 b1)"
  "prefix_norm tn (Suc 0) (Num a1 # as) = dsqrt (dadd zero (dmul a1 a1))"
  by (simp_all add: prefix_dot_def prefix_norm_def float_sum_def num_of_def)

lemma prefix2_Suc:
  "prefix_dot tn (Suc (Suc 0)) [Num a1, Num a2] [Num b1, Num b2] =
     dadd (dadd zero (dmul a1 b1)) (dmul a2 b2)"
  "prefix_norm tn (Suc (Suc 0)) [Num a1, Num a2] = dsqrt (dadd (dadd zero (dmul a1 a1)) (dmul a2 a2))"
  by (simp_all add: prefix_dot_def prefix_norm_def float_sum_def num_of_def
      upt_rec [of 0] upt_rec [of "Suc 0"])

lemma prefix2:
  "prefix_dot tn 2 [Num a1, Num a2] [Num b1, Num b2] = dadd (dadd zero (dmul a1 b1)) (dmul a2 b2)"
  "prefix_norm tn 2 [Num a1, Num a2] = dsqrt (dadd (dadd zero (dmul a1 a1)) (dmul a2 a2))"
  by (simp_all add: prefix_dot_def prefix_norm_def float_sum_def num_of_def numeral_2_eq_2
      upt_rec [of 0] upt_rec [of "Suc 0"])

lemma unconvertible_take:
  "unconvertible (take (min (length as) (length bs)) as) (take (min (length as) (length bs)) bs) =
     unconvertible as bs"
  by (simp add: unconvertible_def Let_def)

text \<open>
  Claim C1. For two arrays, \<open>cosineSimilarity\<close> computes over the common prefix length
  \<open>L = min(len(a), len(b))\<close>: the dot product and both norms are sums over the indices
  below \<open>L\<close> and the result is \<open>dot / (normA * normB)\<close> (0 when \<open>L\<close> or a norm is 0), so
  the result is that of the two arrays cut to \<open>L\<close> elements; arrays of different lengths
  are not rejected, and \<open>cosineSimilarity([1,0,0],[1,0])\<close> is 1. On two arrays of numbers
  the function returns; the only throw is a TypeError, for an element below \<open>L\<close> that
  has no primitive.
\<close>

theorem cosineSimilarity_common_prefix:
  "cosineSimilarity tn (Arr as) (Arr bs) =
     (let L = min (length as) (length bs)
      in if unconvertible as bs then Inl TypeError
         else Inr (if L = 0 \<or> deq (prefix_norm tn L as) zero \<or> deq (prefix_norm tn L bs) zero
                   then zero
                   else ddiv (prefix_dot tn L as bs)
                          (dmul (prefix_norm tn L as) (prefix_norm tn L bs))))
   \<and> cosineSimilarity tn (Arr (map Num ds)) (Arr (map Num es)) =
       (let L = min (length ds) (length es)
        in Inr (if L = 0 \<or> deq (prefix_norm tn L (map Num ds)) zero
                     \<or> deq (prefix_norm tn L (map Num es)) zero
                then zero
                else ddiv (prefix_dot tn L (map Num ds) (map Num es))
                       (dmul (prefix_norm tn L (map Num ds)) (prefix_norm tn L (map Num es)))))
   \<and> cosineSimilarity tn (Arr as) (Arr bs) =
       cosineSimilarity tn (Arr (take (min (length as) (length bs)) as))
         (Arr (take (min (length as) (length bs)) bs))
   \<and> cosineSimilarity tn (Arr [Num one, Num zero, Num zero]) (Arr [Num one, Num zero]) = Inr one"
proof (intro conjI)
  show "cosineSimilarity tn (Arr as) (Arr bs) =
     (let L = min (length as) (length bs)
      in if unconvertible as bs then Inl TypeError
         else Inr (if L = 0 \<or> deq (prefix_norm tn L as) zero \<or> deq (prefix_norm tn L bs) zero
                   then zero
                   else ddiv (prefix_dot tn L as bs)
                          (dmul (prefix_norm tn L as) (prefix_norm tn L bs))))"
    using cosine_arrays [of tn as bs] by (simp add: cosineSimilarity_arrays_value Let_def)
  show "cosineSimilarity tn (Arr (map Num ds)) (Arr (map Num es)) =
       (let L = min (length ds) (length es)
        in Inr (if L = 0 \<or> deq (prefix_norm tn L (map Num ds)) zero
                     \<or> deq (prefix_norm tn L (map Num es)) zero
                then zero
                else ddiv (prefix_dot tn L (map Num ds) (map Num es))
                       (dmul (prefix_norm tn L (map Num ds)) (prefix_norm tn L (map Num es)))))"
    using cosine_arrays [of tn "map Num ds" "map Num es"]
    by (simp add: cosineSimilarity_numbers Let_def)
  show "cosineSimilarity tn (Arr as) (Arr bs) =
       cosineSimilarity tn (Arr (take (min (length as) (length bs)) as))
         (Arr (take (min (length as) (length bs)) bs))"
    using cosine_take [of tn as bs]
    by (simp only: cosineSimilarity_arrays_value unconvertible_take)
  show "cosineSimilarity tn (Arr [Num one, Num zero, Num zero]) (Arr [Num one, Num zero]) = Inr one"
    using cosineSimilarity_numbers [of tn "[one, zero, zero]" "[one, zero]"] cosine_example [of tn]
    by simp
qed

theorem cosineSimilarity_common_prefix_witness:
  "cosineSimilarity tn_sample (Arr [Num one, Num zero, Num one]) (Arr [Num one, Num zero]) =
     cosineSimilarity tn_sample (Arr [Num one, Num zero]) (Arr [Num one, Num zero])
   \<and> cosineSimilarity tn_sample (Arr [Num one, Num zero]) (Arr [Num one, Num zero]) = Inr one
   \<and> cosineSimilarity tn_sample (Arr [Num one, Obj [(''toString'', Num zero)]])
        (Arr [Num one, Num zero]) = Inl TypeError
   \<and> cosineSimilarity tn_sample (Arr [Num one, Obj [(''toString'', Num zero)]]) (Arr [Num one]) =
       Inr one"
proof -
  note t = cosineSimilarity_common_prefix [of tn_sample _ _ "[]" "[]"]
  have a: "cosineSimilarity tn_sample (Arr [Num one, Num zero, Num one]) (Arr [Num one, Num zero]) =
     cosineSimilarity tn_sample (Arr [Num one, Num zero]) (Arr [Num one, Num zero])"
    using t [of "[Num one, Num zero, Num one]" "[Num one, Num zero]", THEN conjunct2, THEN conjunct2,
        THEN conjunct1]
    by simp
  have b: "cosineSimilarity tn_sample (Arr [Num one, Num zero]) (Arr [Num one, Num zero]) = Inr one"
    using t [of "[Num one, Num zero]" "[Num one, Num zero]", THEN conjunct1]
    by (simp add: unconvertible_def prefix2_Suc eval_double cong: let_weak_cong split del: if_split)
  have c: "cosineSimilarity tn_sample (Arr [Num one, Obj [(''toString'', Num zero)]])
        (Arr [Num one, Num zero]) = Inl TypeError"
    using t [of "[Num one, Obj [(''toString'', Num zero)]]" "[Num one, Num zero]", THEN conjunct1]
    by (simp add: unconvertible_def)
  have d: "cosineSimilarity tn_sample (Arr [Num one, Obj [(''toString'', Num zero)]]) (Arr [Num one]) =
       Inr one"
    using t [of "[Num one, Obj [(''toString'', Num zero)]]" "[Num one]", THEN conjunct1]
    by (simp add: unconvertible_def prefix1 eval_double cong: let_weak_cong split del: if_split)
  from a b c d show ?thesis by (intro conjI)
qed

section \<open>The embedding client's fallback\<close>

lemma generateEmbeddings_failed:
  assumes "embedding_call_fails (fetch t)"
  shows "\<exists>e. generateEmbeddings_try (fetch t) = Inl e"
  using assms
  by (cases "fetch t") (auto simp: generateEmbeddings_try_def split: option.splits)

lemma generateEmbeddings_thrown:
  assumes "generateEmbeddings_try (fetch t) = Inl e"
  shows "generateEmbeddings fetch t = fallback"
  using assms by (simp add: generateEmbeddings_def)

lemma unconvertible_fallback:
  "unconvertible (replicate 512 (Num zero)) bs = list_ex no_primitive (take 512 bs)"
  "unconvertible bs (replicate 512 (Num zero)) = list_ex no_primitive (take 512 bs)"
proof -
  have "\<not> list_ex no_primitive (take n (replicate 512 (Num zero)))" for n
    by (auto simp: list_ex_iff dest: in_set_takeD)
  moreover have "take (min 512 (length bs)) bs = take 512 bs"
    "take (min (length bs) 512) bs = take 512 bs"
    by (simp_all add: min_def)
  ultimately show "unconvertible (replicate 512 (Num zero)) bs = list_ex no_primitive (take 512 bs)"
    "unconvertible bs (replicate 512 (Num zero)) = list_ex no_primitive (take 512 bs)"
    by (simp_all add: unconvertible_def Let_def)
qed

lemma cosineSimilarity_fallback:
  "cosineSimilarity tn fallback v =
     (if isArray v \<and> list_ex no_primitive (take 512 (elems v)) then Inl TypeError else Inr zero)"
  "cosineSimilarity tn v fallback =
     (if isArray v \<and> list_ex no_primitive (take 512 (elems v)) then Inl TypeError else Inr zero)"
  by (simp_all add: cosineSimilarity_value cosine_fallback_left cosine_fallback_right)
    (simp_all add: fallback_def unconvertible_fallback)

lemma score_doc_fallback:
  assumes "generateEmbeddings (net (Suc i)) (content doc) = fallback"
  shows "score (score_doc tn net qe (i, doc)) = zero"
proof (cases "isArray qe \<and> list_ex no_primitive (take 512 (elems qe))")
  case True
  then show ?thesis
    by (simp add: score_doc_fields assms cosineSimilarity_fallback)
next
  case False
  then show ?thesis
    by (simp add: score_doc_fields assms cosineSimilarity_fallback)
qed

text \<open>
  Claim C4. When the embedding call fails (the request is rejected, the status is not a
  success, or the body does not parse), and whenever anything else throws inside the
  \<open>try\<close> block, \<open>generateEmbeddings\<close> does not throw and returns an array of exactly 512
  zeros. The cosine similarity of that array with any value \<open>v\<close>, on either side, is 0,
  and with every array of numbers in particular; the one exception is an array \<open>v\<close> that
  holds, in its first 512 elements, a value that has no primitive, where the
  multiplication throws. Either way the score of a document whose embedding failed is
  0, which does not pass the filter \<open>score > 0.5\<close>.
\<close>

theorem failed_embedding_is_zero_vector:
  assumes "embedding_call_fails (fetch text) \<or> (\<exists>e. generateEmbeddings_try (fetch text) = Inl e)"
  shows "generateEmbeddings fetch text = Arr (replicate 512 (Num zero))
    \<and> length (elems (generateEmbeddings fetch text)) = 512
    \<and> (\<forall>v. cosineSimilarity tn (generateEmbeddings fetch text) v =
             (if isArray v \<and> list_ex no_primitive (take 512 (elems v)) then Inl TypeError
              else Inr zero)
          \<and> cosineSimilarity tn v (generateEmbeddings fetch text) =
             (if isArray v \<and> list_ex no_primitive (take 512 (elems v)) then Inl TypeError
              else Inr zero))
    \<and> (\<forall>ds. cosineSimilarity tn (generateEmbeddings fetch text) (Arr (map Num ds)) = Inr zero
          \<and> cosineSimilarity tn (Arr (map Num ds)) (generateEmbeddings fetch text) = Inr zero)
    \<and> (\<forall>net i doc qe. net (Suc i) = fetch \<and> content doc = text \<longrightarrow>
          score (score_doc tn net qe (i, doc)) = zero
          \<and> \<not> dgt (score (score_doc tn net qe (i, doc))) half)"
proof -
  from assms generateEmbeddings_failed [of fetch "text"]
  obtain e where "generateEmbeddings_try (fetch text) = Inl e"
    by blast
  then have fb: "generateEmbeddings fetch text = fallback"
    by (rule generateEmbeddings_thrown)
  have n: "\<not> list_ex no_primitive (take 512 (map Num ds))" for ds
    by (simp add: take_map list_ex_iff)
  have d: "score (score_doc tn net qe (i, doc)) = zero"
    if "net (Suc i) = fetch \<and> content doc = text" for net i doc qe
    using that fb by (auto intro: score_doc_fallback)
  show ?thesis
  proof (intro conjI allI impI)
    show "generateEmbeddings fetch text = Arr (replicate 512 (Num zero))"
      by (simp add: fb fallback_def)
    show "length (elems (generateEmbeddings fetch text)) = 512"
      by (simp add: fb fallback_def)
    show "cosineSimilarity tn (generateEmbeddings fetch text) v =
             (if isArray v \<and> list_ex no_primitive (take 512 (elems v)) then Inl TypeError
              else Inr zero)" for v
      unfolding fb by (rule cosineSimilarity_fallback)
    show "cosineSimilarity tn v (generateEmbeddings fetch text) =
             (if isArray v \<and> list_ex no_primitive (take 512 (elems v)) then Inl TypeError
              else Inr zero)" for v
      unfolding fb by (rule cosineSimilarity_fallback)
    show "cosineSimilarity tn (generateEmbeddings fetch text) (Arr (map Num ds)) = Inr zero" for ds
      unfolding fb by (simp add: cosineSimilarity_fallback n)
    show "cosineSimilarity tn (Arr (map Num ds)) (generateEmbeddings fetch text) = Inr zero" for ds
      unfolding fb by (simp add: cosineSimilarity_fallback n)
    show "score (score_doc tn net qe (i, doc)) = zero"
      if "net (Suc i) = fetch \<and> content doc = text" for net i doc qe
      using that by (rule d)
    show "\<not> dgt (score (score_doc tn net qe (i, doc))) half"
      if "net (Suc i) = fetch \<and> content doc = text" for net i doc qe
      using d [of net i doc qe] that by (simp add: not_zero_gt_half)
  qed
qed

theorem failed_embedding_is_zero_vector_witness:
  "embedding_call_fails (net_down 1 (Str ''A''))
   \<and> generateEmbeddings (net_down 1) (Str ''A'') = Arr (replicate 512 (Num zero))
   \<and> cosineSimilarity tn_sample (Arr [Num one, Num zero]) (generateEmbeddings (net_down 1) (Str ''A'')) =
       Inr zero
   \<and> cosineSimilarity tn_sample (Arr [Obj [(''toString'', Num zero)]])
        (generateEmbeddings (net_down 1) (Str ''A'')) = Inl TypeError
   \<and> score (score_doc tn_sample net_down (Arr [Obj [(''toString'', Num zero)]]) (0, doc_a)) = zero"
proof -
  have h: "embedding_call_fails (net_down 1 (Str ''A''))"
    by (simp add: net_down_def)
  have n: "net_down (Suc 0) = net_down 1 \<and> content doc_a = Str ''A''"
    by (simp add: net_down_def doc_a_def fun_eq_iff)
  note t = failed_embedding_is_zero_vector [of "net_down 1" "Str ''A''" tn_sample]
  from t h have a: "generateEmbeddings (net_down 1) (Str ''A'') = Arr (replicate 512 (Num zero))"
    by blast
  from t h have b: "cosineSimilarity tn_sample (Arr [Num one, Num zero])
      (generateEmbeddings (net_down 1) (Str ''A'')) =
      (if isArray (Arr [Num one, Num zero])
          \<and> list_ex no_primitive (take 512 (elems (Arr [Num one, Num zero])))
       then Inl TypeError else Inr zero)"
    by blast
  from t h have c: "cosineSimilarity tn_sample (Arr [Obj [(''toString'', Num zero)]])
      (generateEmbeddings (net_down 1) (Str ''A'')) =
      (if isArray (Arr [Obj [(''toString'', Num zero)]])
          \<and> list_ex no_primitive (take 512 (elems (Arr [Obj [(''toString'', Num zero)]])))
       then Inl TypeError else Inr zero)"
    by blast
  from t h n have d: "score (score_doc tn_sample net_down (Arr [Obj [(''toString'', Num zero)]])
      (0, doc_a)) = zero"
    by blast
  from h a b c d show ?thesis by simp
qed

section \<open>The retriever's early exit\<close>

text \<open>
  Claim C3. If the value that the query-embedding step yields is not an array, the
  retriever returns the empty list, whatever the documents are (none included), and the
  only text for which an embedding was requested is the query: no document is embedded
  or scored.
\<close>

theorem retrieve_query_not_array:
  assumes "\<not> isArray (generateEmbeddings (net 0) (Str query))"
  shows "retrieveRelevantDocsWithEmbeddings tn net query documents = ([], [Str query])"
  using assms by (simp add: retrieveRelevantDocsWithEmbeddings_def getEmbedding_def)

theorem retrieve_query_not_array_witness:
  "\<not> isArray (generateEmbeddings (net_no_embedding 0) (Str ''q''))
   \<and> retrieveRelevantDocsWithEmbeddings tn_sample net_no_embedding ''q'' [doc_a] = ([], [Str ''q''])
   \<and> retrieveRelevantDocsWithEmbeddings tn_sample net_no_embedding ''q'' [] = ([], [Str ''q''])"
proof -
  have h: "\<not> isArray (generateEmbeddings (net_no_embedding 0) (Str ''q''))"
    by (simp add: generateEmbeddings_def generateEmbeddings_try_def net_no_embedding_def
        response_ok_def)
  from retrieve_query_not_array [of net_no_embedding "''q''" tn_sample "[doc_a]"]
    retrieve_query_not_array [of net_no_embedding "''q''" tn_sample "[]"] h
  show ?thesis by blast
qed

section \<open>Ranking\<close>

text \<open>
  Claim C7. The list that the retriever returns is in descending order of score: the
  score of every element is greater than or equal to the score of every later element.
  Three documents that score 0.9, 0.6 and 0.95 come out in the order 0.95, 0.9, 0.6.
\<close>

theorem retrieved_sorted_descending:
  "sorted_wrt (\<lambda>a b. dge (score a) (score b))
     (fst (retrieveRelevantDocsWithEmbeddings tn net query documents))
   \<and> js_sort by_score [scored ''a.json'' ''A'' d090, scored ''c.json'' ''C'' d060,
        scored ''d.json'' ''D'' d095] =
       [scored ''d.json'' ''D'' d095, scored ''a.json'' ''A'' d090, scored ''c.json'' ''C'' d060]"
proof -
  have "sorted_wrt (\<lambda>a b. dge (score a) (score b))
          (js_sort by_score (filter (\<lambda>doc. dgt (score doc) half) xs))" for xs
    by (rule sorted_js_sort) (auto dest: dgt_not_nan)
  then have "sorted_wrt (\<lambda>a b. dge (score a) (score b))
     (fst (retrieveRelevantDocsWithEmbeddings tn net query documents))"
    by (simp add: retrieveRelevantDocsWithEmbeddings_def Let_def split: sum.splits)
  with sort_three show ?thesis by simp
qed

theorem retrieved_sorted_descending_witness:
  "map score (fst (retrieveRelevantDocsWithEmbeddings tn_sample net_sample ''q'' docs_sample)) =
     [d095, d090, d060, d050001]
   \<and> dge d095 d090 \<and> dge d090 d060 \<and> dge d060 d050001"
  using retrieved_sorted_descending [of tn_sample net_sample "''q''" docs_sample]
  by (simp add: retrieve_sample score_scored)

section \<open>Document loader\<close>

text \<open>
  Claim C8. The loader returns one document for every entry of the directory whose name
  ends in \<open>.json\<close>, in the order of the listing and under that name. When the file
  cannot be read or parsed, or its \<open>data\<close> field is absent (the parsed value is not an
  object, or is an object with no property \<open>data\<close>), the content of its document is the
  empty string, and the other files are loaded all the same. When the field is present
  the content is its value, or the empty string when that value is falsy.
\<close>

theorem loadDocuments_one_per_json_file:
  "map filename (loadDocuments parse dir) = filter (\<lambda>file. endsWith file ''.json'') (map fst dir)
   \<and> (\<forall>i < length (loadDocuments parse dir).
        let name = filter (\<lambda>file. endsWith file ''.json'') (map fst dir) ! i;
            doc = loadDocuments parse dir ! i
        in (\<forall>text. map_of dir name = Some (Some text) \<and> parse text = None \<longrightarrow> content doc = Str [])
         \<and> (map_of dir name = Some None \<longrightarrow> content doc = Str [])
         \<and> (\<forall>text c. map_of dir name = Some (Some text) \<and> parse text = Some c
               \<and> (\<forall>kvs. c = Obj kvs \<longrightarrow> map_of kvs ''data'' = None) \<longrightarrow> content doc = Str [])
         \<and> (\<forall>text kvs d. map_of dir name = Some (Some text) \<and> parse text = Some (Obj kvs)
               \<and> map_of kvs ''data'' = Some d \<longrightarrow>
               content doc = (if truthy d then d else Str [])))"
proof -
  have fn: "filename (load_one parse dir name) = name" for name
    by (simp add: load_one_def split: option.splits sum.splits)
  have names: "map filename (loadDocuments parse dir) = filter (\<lambda>file. endsWith file ''.json'') (map fst dir)"
    by (simp add: loadDocuments_def fn comp_def)
  have absent: "content (load_one parse dir name) = Str []"
    if "map_of dir name = Some (Some t)" "parse t = Some c"
      "\<forall>kvs. c = Obj kvs \<longrightarrow> map_of kvs ''data'' = None" for name t c
    using that by (cases c) (simp_all add: load_one_def)
  have each: "\<forall>i < length (loadDocuments parse dir).
        let name = filter (\<lambda>file. endsWith file ''.json'') (map fst dir) ! i;
            doc = loadDocuments parse dir ! i
        in (\<forall>text. map_of dir name = Some (Some text) \<and> parse text = None \<longrightarrow> content doc = Str [])
         \<and> (map_of dir name = Some None \<longrightarrow> content doc = Str [])
         \<and> (\<forall>text c. map_of dir name = Some (Some text) \<and> parse text = Some c
               \<and> (\<forall>kvs. c = Obj kvs \<longrightarrow> map_of kvs ''data'' = None) \<longrightarrow> content doc = Str [])
         \<and> (\<forall>text kvs d. map_of dir name = Some (Some text) \<and> parse text = Some (Obj kvs)
               \<and> map_of kvs ''data'' = Some d \<longrightarrow>
               content doc = (if truthy d then d else Str []))"
  proof (intro allI impI)
    fix i
    assume i: "i < length (loadDocuments parse dir)"
    define name where "name = filter (\<lambda>file. endsWith file ''.json'') (map fst dir) ! i"
    from i have d: "loadDocuments parse dir ! i = load_one parse dir name"
      by (simp add: loadDocuments_def name_def)
    have 1: "\<forall>text. map_of dir name = Some (Some text) \<and> parse text = None \<longrightarrow>
        content (load_one parse dir name) = Str []"
      by (simp add: load_one_def)
    have 2: "map_of dir name = Some None \<longrightarrow> content (load_one parse dir name) = Str []"
      by (simp add: load_one_def)
    have 3: "\<forall>text c. map_of dir name = Some (Some text) \<and> parse text = Some c
        \<and> (\<forall>kvs. c = Obj kvs \<longrightarrow> map_of kvs ''data'' = None) \<longrightarrow>
        content (load_one parse dir name) = Str []"
      using absent by blast
    have 4: "\<forall>text kvs d. map_of dir name = Some (Some text) \<and> parse text = Some (Obj kvs)
        \<and> map_of kvs ''data'' = Some d \<longrightarrow>
        content (load_one parse dir name) = (if truthy d then d else Str [])"
      by (simp add: load_one_def)
    from 1 2 3 4 show "let name = filter (\<lambda>file. endsWith file ''.json'') (map fst dir) ! i;
            doc = loadDocuments parse dir ! i
        in (\<forall>text. map_of dir name = Some (Some text) \<and> parse text = None \<longrightarrow> content doc = Str [])
         \<and> (map_of dir name = Some None \<longrightarrow> content doc = Str [])
         \<and> (\<forall>text c. map_of dir name = Some (Some text) \<and> parse text = Some c
               \<and> (\<forall>kvs. c = Obj kvs \<longrightarrow> map_of kvs ''data'' = None) \<longrightarrow> content doc = Str [])
         \<and> (\<forall>text kvs d. map_of dir name = Some (Some text) \<and> parse text = Some (Obj kvs)
               \<and> map_of kvs ''data'' = Some d \<longrightarrow>
               content doc = (if truthy d then d else Str []))"
      unfolding Let_def d name_def [symmetric] by (intro conjI)
  qed
  from names each show ?thesis by (rule conjI)
qed

lemma names_sample:
  "endsWith ''a.json'' ''.json''" "\<not> endsWith ''notes.txt'' ''.json''"
  "endsWith ''b.json'' ''.json''" "endsWith ''c.json'' ''.json''" "endsWith ''d.json'' ''.json''"
  "endsWith ''e.json'' ''.json''" "endsWith ''f.json'' ''.json''" "endsWith ''g.json'' ''.json''"
  by (simp_all add: endsWith_def)

theorem loadDocuments_one_per_json_file_witness:
  "map filename (loadDocuments parse_sample dir_sample) =
     [''a.json'', ''b.json'', ''c.json'', ''d.json'', ''e.json'', ''f.json'', ''g.json'']
   \<and> map content (loadDocuments parse_sample dir_sample) =
       [Str ''Hello'', Str [], Str [], Str [], Str [], Str [], Str []]"
proof -
  have n: "filter (\<lambda>file. endsWith file ''.json'') (map fst dir_sample) =
      [''a.json'', ''b.json'', ''c.json'', ''d.json'', ''e.json'', ''f.json'', ''g.json'']"
    by (simp add: dir_sample_def names_sample)
  have len: "length (loadDocuments parse_sample dir_sample) = 7"
    using arg_cong [OF conjunct1 [OF loadDocuments_one_per_json_file [of parse_sample dir_sample]], of length]
    by (simp add: n)
  have m: "map_of dir_sample ''a.json'' = Some (Some ''hello'')" "map_of dir_sample ''b.json'' = Some (Some ''broken'')"
    "map_of dir_sample ''c.json'' = Some (Some ''nodata'')" "map_of dir_sample ''d.json'' = Some None"
    "map_of dir_sample ''e.json'' = Some (Some ''null'')" "map_of dir_sample ''f.json'' = Some (Some ''list'')"
    "map_of dir_sample ''g.json'' = Some (Some ''nought'')"
    by (simp_all add: dir_sample_def)
  have p: "parse_sample ''hello'' = Some (Obj [(''data'', Str ''Hello'')])" "parse_sample ''broken'' = None"
    "parse_sample ''nodata'' = Some (Obj [(''title'', Str ''T'')])" "parse_sample ''null'' = Some Null"
    "parse_sample ''list'' = Some (Arr [Num one])"
    "parse_sample ''nought'' = Some (Obj [(''data'', Num zero)])"
    by (simp_all add: parse_sample_def)
  have e: "\<forall>i < 7. let name = [''a.json'', ''b.json'', ''c.json'', ''d.json'', ''e.json'', ''f.json'', ''g.json''] ! i;
            doc = loadDocuments parse_sample dir_sample ! i
        in (\<forall>text. map_of dir_sample name = Some (Some text) \<and> parse_sample text = None \<longrightarrow> content doc = Str [])
         \<and> (map_of dir_sample name = Some None \<longrightarrow> content doc = Str [])
         \<and> (\<forall>text c. map_of dir_sample name = Some (Some text) \<and> parse_sample text = Some c
               \<and> (\<forall>kvs. c = Obj kvs \<longrightarrow> map_of kvs ''data'' = None) \<longrightarrow> content doc = Str [])
         \<and> (\<forall>text kvs d. map_of dir_sample name = Some (Some text) \<and> parse_sample text = Some (Obj kvs)
               \<and> map_of kvs ''data'' = Some d \<longrightarrow>
               content doc = (if truthy d then d else Str []))"
    using conjunct2 [OF loadDocuments_one_per_json_file [of parse_sample dir_sample]]
    by (simp only: n len)
  have c0: "content (loadDocuments parse_sample dir_sample ! 0) = Str ''Hello''"
    using e [rule_format, of 0] by (simp add: Let_def m p)
  have c1: "content (loadDocuments parse_sample dir_sample ! 1) = Str []"
    using e [rule_format, of 1] by (simp add: Let_def m p)
  have c2: "content (loadDocuments parse_sample dir_sample ! 2) = Str []"
    using e [rule_format, of 2] by (simp add: Let_def m p)
  have c3: "content (loadDocuments parse_sample dir_sample ! 3) = Str []"
    using e [rule_format, of 3] by (simp add: Let_def m p)
  have c4: "content (loadDocuments parse_sample dir_sample ! 4) = Str []"
    using e [rule_format, of 4] by (simp add: Let_def m p)
  have c5: "content (loadDocuments parse_sample dir_sample ! 5) = Str []"
    using e [rule_format, of 5] by (simp add: Let_def m p)
  have c6: "content (loadDocuments parse_sample dir_sample ! 6) = Str []"
    using e [rule_format, of 6] by (simp add: Let_def m p zero_def compare_zero_eval)
  have "map content (loadDocuments parse_sample dir_sample) =
      [Str ''Hello'', Str [], Str [], Str [], Str [], Str [], Str []]"
    by (rule nth_equalityI) (use len c0 c1 c2 c3 c4 c5 c6 in \<open>auto simp: less_Suc_eq numeral_eq_Suc\<close>)
  with conjunct1 [OF loadDocuments_one_per_json_file [of parse_sample dir_sample]] n
  show ?thesis by simp
qed

section \<open>The relevance threshold\<close>

lemma score_docs_by_index:
  "map (score_doc tn net qe) (zip [0..<length documents] documents) =
     map (\<lambda>i. \<lparr>filename = filename (documents ! i), content = content (documents ! i),
                score = (case cosineSimilarity tn qe
                                (generateEmbeddings (net (Suc i)) (content (documents ! i))) of
                           Inl e \<Rightarrow> zero
                         | Inr s \<Rightarrow> s)\<rparr>)
       [0..<length documents]"
  by (rule nth_equalityI) (simp_all add: score_doc_value)

text \<open>
  Claim C2. The list that the retriever returns holds exactly the documents whose cosine
  similarity with the query embedding is greater than 0.5, each once per occurrence and
  with that score: a score of exactly 0.5 does not pass, the score 0.50001 does. A
  document for which \<open>cosineSimilarity\<close> throws has the score 0 and is not returned.
\<close>

theorem retrieved_are_those_above_half:
  "mset (fst (retrieveRelevantDocsWithEmbeddings tn net query documents)) =
     mset (filter (\<lambda>doc. dgt (score doc) half)
       (map (\<lambda>i. \<lparr>filename = filename (documents ! i), content = content (documents ! i),
                  score = (case cosineSimilarity tn (generateEmbeddings (net 0) (Str query))
                                  (generateEmbeddings (net (Suc i)) (content (documents ! i))) of
                             Inl e \<Rightarrow> zero
                           | Inr s \<Rightarrow> s)\<rparr>)
         [0..<length documents]))
   \<and> \<not> dgt half half \<and> dgt d050001 half \<and> \<not> dgt zero half"
proof (cases "isArray (generateEmbeddings (net 0) (Str query))")
  case True
  then show ?thesis
    by (simp add: retrieveRelevantDocsWithEmbeddings_def getEmbedding_def truthy_array Let_def
        mset_js_sort score_docs_by_index threshold_sample not_zero_gt_half)
next
  case False
  then have "filter (\<lambda>doc. dgt (score doc) half)
       (map (\<lambda>i. \<lparr>filename = filename (documents ! i), content = content (documents ! i),
                  score = (case cosineSimilarity tn (generateEmbeddings (net 0) (Str query))
                                  (generateEmbeddings (net (Suc i)) (content (documents ! i))) of
                             Inl e \<Rightarrow> zero
                           | Inr s \<Rightarrow> s)\<rparr>)
         [0..<length documents]) = []"
    by (simp add: cosineSimilarity_not_arrays not_zero_gt_half filter_empty_conv)
  with False show ?thesis
    by (simp add: retrieveRelevantDocsWithEmbeddings_def getEmbedding_def threshold_sample
        not_zero_gt_half)
qed

theorem retrieved_are_those_above_half_witness:
  "mset [scored ''d.json'' ''D'' d095, scored ''a.json'' ''A'' d090, scored ''c.json'' ''C'' d060,
       scored ''e.json'' ''E'' d050001] =
     mset (filter (\<lambda>doc. dgt (score doc) half)
       (map (\<lambda>i. \<lparr>filename = filename (docs_sample ! i), content = content (docs_sample ! i),
                  score = (case cosineSimilarity tn_sample (generateEmbeddings (net_sample 0) (Str ''q''))
                                  (generateEmbeddings (net_sample (Suc i)) (content (docs_sample ! i))) of
                             Inl e \<Rightarrow> zero
                           | Inr s \<Rightarrow> s)\<rparr>)
         [0..<length docs_sample]))
   \<and> cosineSimilarity tn_sample (generateEmbeddings (net_sample 0) (Str ''q''))
        (generateEmbeddings (net_sample 2) (Str ''B'')) = Inr half"
proof -
  have b: "cosineSimilarity tn_sample (generateEmbeddings (net_sample 0) (Str ''q''))
        (generateEmbeddings (net_sample 2) (Str ''B'')) = Inr half"
    by (simp add: generateEmbeddings_net_sample numeral_2_eq_2 cosineSimilarity_pair cos_sample)
  have r: "fst (retrieveRelevantDocsWithEmbeddings tn_sample net_sample ''q'' docs_sample) =
      [scored ''d.json'' ''D'' d095, scored ''a.json'' ''A'' d090, scored ''c.json'' ''C'' d060,
       scored ''e.json'' ''E'' d050001]"
    by (simp add: retrieve_sample)
  from conjunct1 [OF retrieved_are_those_above_half [of tn_sample net_sample "''q''" docs_sample]]
  have "mset [scored ''d.json'' ''D'' d095, scored ''a.json'' ''A'' d090, scored ''c.json'' ''C'' d060,
       scored ''e.json'' ''E'' d050001] =
     mset (filter (\<lambda>doc. dgt (score doc) half)
       (map (\<lambda>i. \<lparr>filename = filename (docs_sample ! i), content = content (docs_sample ! i),
                  score = (case cosineSimilarity tn_sample (generateEmbeddings (net_sample 0) (Str ''q''))
                                  (generateEmbeddings (net_sample (Suc i)) (content (docs_sample ! i))) of
                             Inl e \<Rightarrow> zero
                           | Inr s \<Rightarrow> s)\<rparr>)
         [0..<length docs_sample]))"
    unfolding r .
  with b show ?thesis by (rule conjI [rotated])
qed

section \<open>The zero cases of cosine similarity\<close>

lemma float_sum_zeros: "(\<forall>x \<in> set xs. x = zero) \<Longrightarrow> foldl dadd zero xs = zero"
  by (induction xs) (simp_all add: dadd_zero_zero)

lemma is_zero_num_square: "is_zero_num x \<Longrightarrow> dmul (num_of tn x) (num_of tn x) = zero"
  by (cases x rule: is_zero_num.cases) (simp_all add: num_of_def round_double_0 zero_def)

lemma prefix_norm_zero_vector:
  assumes "list_all is_zero_num xs" "L \<le> length xs"
  shows "prefix_norm tn L xs = zero"
proof -
  have "\<forall>x \<in> set (map (\<lambda>i. dmul (num_of tn (xs ! i)) (num_of tn (xs ! i))) [0..<L]). x = zero"
    using assms by (auto simp: list_all_length is_zero_num_square)
  then show ?thesis
    by (simp add: prefix_norm_def float_sum_def float_sum_zeros dsqrt_zero)
qed

subsection \<open>Finite sums and norms give a number\<close>

text \<open>
  A norm that is finite and not zero is at least \<open>2 ^ (-537)\<close>, the square root of the
  smallest double, so the product of two such norms does not round to zero and the
  quotient of a finite dot product by it is a number.
\<close>

lemma isqrt_bounds: "isqrt n * isqrt n \<le> n \<and> n < (isqrt n + 1) * (isqrt n + 1)"
proof (induction n rule: isqrt.induct)
  case (1 n)
  show ?case
  proof (cases "n = 0")
    case True
    then show ?thesis by (simp add: isqrt.simps [of 0])
  next
    case False
    define s where "s = isqrt (n div 4)"
    from 1 False have ih: "s * s \<le> n div 4" "n div 4 < (s + 1) * (s + 1)"
      by (simp_all add: s_def)
    have lo: "(2 * s) * (2 * s) \<le> n"
    proof -
      have "4 * (s * s) \<le> 4 * (n div 4)" using ih(1) by simp
      also have "\<dots> \<le> n" by simp
      finally show ?thesis by (simp add: algebra_simps)
    qed
    have hi: "n < (2 * s + 2) * (2 * s + 2)"
    proof -
      from ih(2) have "n div 4 + 1 \<le> (s + 1) * (s + 1)" by simp
      then have "4 * (n div 4) + 4 \<le> 4 * ((s + 1) * (s + 1))" by simp
      moreover have "n < 4 * (n div 4) + 4"
        by (metis add.commute div_mult_mod_eq mod_less_divisor mult.commute nat_add_left_cancel_less zero_less_numeral)
      ultimately show ?thesis by (simp add: algebra_simps)
    qed
    have r: "isqrt n = (if (2 * s + 1) * (2 * s + 1) \<le> n then 2 * s + 1 else 2 * s)"
      using False by (subst isqrt.simps) (simp add: Let_def s_def)
    show ?thesis
    proof (cases "(2 * s + 1) * (2 * s + 1) \<le> n")
      case True
      with r hi show ?thesis by (simp add: algebra_simps)
    next
      case f: False
      with r lo show ?thesis by (simp add: algebra_simps)
    qed
  qed
qed

lemma not_nan_normalise: "\<not> is_nan (normalise m k)"
  using normalise_shape [of m k] by auto

lemma not_nan_finish: "\<not> is_nan (finish sg q t)"
  by (simp add: finish_def not_nan_normalise)

lemma not_nan_round_double: "\<not> is_nan (round_double m e)"
  by (simp add: round_double_def Let_def not_nan_finish)

lemma round_magnitude_ge: "a div 2 ^ s \<le> round_magnitude a s"
  by (simp add: round_magnitude_def Let_def)

lemma finish_pos_shape:
  assumes "0 < q"
  shows "finish 1 q t = PInf \<or> (\<exists>m' k'. finish 1 q t = Fin m' k' \<and> m' * 2 ^ k' = int q * 2 ^ t)"
  using assms normalise_shape [of "int q" t] by (auto simp: finish_def)

lemma round_double_pos_cases:
  assumes "0 < a"
  shows "round_double (int a) e =
    (if nat (max 0 (e + int (bitlen a) - 53) - e) = 0 then finish 1 a (nat e)
     else finish 1 (round_magnitude a (nat (max 0 (e + int (bitlen a) - 53) - e)))
            (nat (max 0 (e + int (bitlen a) - 53))))"
proof -
  have "nat \<bar>int a\<bar> = a" "sgn (int a) = 1" using assms by simp_all
  then show ?thesis
    unfolding round_double_def Let_def by simp
qed

lemma div_power_lower:
  fixes a :: nat
  assumes "2 ^ (s + c) \<le> a"
  shows "2 ^ c \<le> a div 2 ^ s"
proof -
  have "(2::nat) ^ c * 2 ^ s \<le> a" using assms by (simp add: power_add mult.commute)
  then show ?thesis by (simp add: less_eq_div_iff_mult_less_eq)
qed

lemma round_double_lower:
  assumes a: "0 < a" and v: "(2::nat) ^ j \<le> a * 2 ^ e"
  shows "round_double (int a) (int e) = PInf
    \<or> (\<exists>m' k'. round_double (int a) (int e) = Fin m' k' \<and> (2::int) ^ j \<le> m' * 2 ^ k')"
proof -
  define n where "n = bitlen a"
  define t where "t = max 0 (int e + int n - 53)"
  define s where "s = nat (t - int e)"
  have r: "round_double (int a) (int e) =
      (if s = 0 then finish 1 a e else finish 1 (round_magnitude a s) (nat t))"
    using round_double_pos_cases [OF a, of "int e"] by (simp add: n_def t_def s_def)
  from bitlen_bounds [OF a] have b: "2 ^ (n - 1) \<le> a" "a < 2 ^ n"
    by (simp_all add: n_def)
  show ?thesis
  proof (cases "s = 0")
    case True
    from finish_pos_shape [OF a, of e] show ?thesis
    proof
      assume "finish 1 a e = PInf"
      with r True show ?thesis by simp
    next
      assume "\<exists>m' k'. finish 1 a e = Fin m' k' \<and> m' * 2 ^ k' = int a * 2 ^ e"
      then obtain m' k' where f: "finish 1 a e = Fin m' k'" and m: "m' * 2 ^ k' = int a * 2 ^ e"
        by blast
      from v have "int (2 ^ j) \<le> int (a * 2 ^ e)" by (simp only: of_nat_le_iff)
      then have "(2::int) ^ j \<le> m' * 2 ^ k'" by (simp add: m)
      with r True f show ?thesis by simp
    qed
  next
    case False
    then have "int e < t" by (simp add: s_def)
    then have teq: "t = int e + int n - 53" by (simp add: t_def)
    then have seq: "int s = int n - 53" using \<open>int e < t\<close> by (simp add: s_def)
    then have n53: "n = s + 53" by linarith
    have nt: "nat t = e + s" using teq seq by linarith
    from b(1) have "2 ^ (s + 52) \<le> a" by (simp add: n53 add.commute)
    then have "2 ^ 52 \<le> a div 2 ^ s" by (rule div_power_lower)
    with round_magnitude_ge [of a s] have q52: "2 ^ 52 \<le> round_magnitude a s"
      by linarith
    then have qpos: "0 < round_magnitude a s"
      by (metis less_le_trans zero_less_numeral zero_less_power)
    have "2 ^ j < (2::nat) ^ (n + e)"
    proof -
      have "a * 2 ^ e < 2 ^ n * 2 ^ e" using b(2) by simp
      with v have "2 ^ j < (2::nat) ^ n * 2 ^ e" by linarith
      then show ?thesis by (simp only: power_add)
    qed
    then have "j < n + e" by (simp add: power_strict_increasing_iff)
    then have jle: "j \<le> 52 + (e + s)" by (simp add: n53)
    from finish_pos_shape [OF qpos, of "nat t"] show ?thesis
    proof
      assume "finish 1 (round_magnitude a s) (nat t) = PInf"
      with r False show ?thesis by simp
    next
      assume "\<exists>m' k'. finish 1 (round_magnitude a s) (nat t) = Fin m' k'
        \<and> m' * 2 ^ k' = int (round_magnitude a s) * 2 ^ nat t"
      then obtain m' k' where f: "finish 1 (round_magnitude a s) (nat t) = Fin m' k'"
        and m: "m' * 2 ^ k' = int (round_magnitude a s) * 2 ^ nat t" by blast
      have "(2::nat) ^ j \<le> 2 ^ (52 + (e + s))"
        using jle by (simp add: power_increasing)
      also have "\<dots> = 2 ^ 52 * 2 ^ (e + s)" by (simp only: power_add)
      also have "\<dots> \<le> round_magnitude a s * 2 ^ (e + s)"
        using q52 by (rule mult_le_mono1)
      finally have "int (2 ^ j) \<le> int (round_magnitude a s * 2 ^ (e + s))"
        by (simp only: of_nat_le_iff)
      then have "(2::int) ^ j \<le> m' * 2 ^ k'" by (simp add: m nt)
      with r False f show ?thesis by simp
    qed
  qed
qed

lemma isqrt_lower:
  assumes "2 ^ (2 * c) \<le> n"
  shows "2 ^ c \<le> isqrt n"
proof (rule ccontr)
  assume "\<not> 2 ^ c \<le> isqrt n"
  then have h: "isqrt n + 1 \<le> 2 ^ c" by linarith
  have "(isqrt n + 1) * (isqrt n + 1) \<le> 2 ^ c * 2 ^ c"
    by (rule mult_le_mono [OF h h])
  also have "\<dots> = 2 ^ (2 * c)" by (simp add: power_add mult_2)
  finally show False using isqrt_bounds [of n] assms by linarith
qed

lemma dsqrt_lower:
  assumes "0 < m"
  shows "dsqrt (Fin m k) = PInf
    \<or> (\<exists>m' k'. dsqrt (Fin m k) = Fin m' k' \<and> (2::int) ^ 537 \<le> m' * 2 ^ k')"
proof -
  define a where "a = nat m"
  define p0 where "p0 = 112 - bitlen a"
  define p where "p = (if even (int k - int p0) then p0 else Suc p0)"
  define N where "N = a * 2 ^ p"
  define R where "R = isqrt N"
  define M where "M = 2 * R + (if R * R = N then 0 else 1)"
  define E where "E = (int k - 1074 - int p) div 2 + 1073"
  from assms have ms: "\<not> m < 0" "m \<noteq> 0" by simp_all
  have d: "dsqrt (Fin m k) = round_double (int M) E"
    by (simp only: M_def E_def R_def N_def p_def p0_def a_def dsqrt.simps Let_def ms if_False)
  have apos: "0 < a" using assms by (simp add: a_def)
  have ev: "even (int k - int p)" by (simp add: p_def)
  have p113: "p \<le> 113" by (auto simp: p_def p0_def)
  have Npos: "1 \<le> N" using apos by (simp add: N_def)
  have "2 ^ (2 * 0) \<le> N" using Npos by simp
  then have R1: "1 \<le> R" unfolding R_def using isqrt_lower [of 0 N] by simp
  then have M2: "2 \<le> M" by (simp add: M_def)
  show ?thesis
  proof (cases "p \<le> k")
    case True
    then have "int (k - p) = int k - int p" by simp
    with ev have "even (k - p)" by (metis even_of_nat)
    then obtain c where "k - p = 2 * c" by (elim evenE)
    with True have c: "k = p + 2 * c" by linarith
    have E: "E = int (536 + c)" by (simp add: E_def c)
    have "(2::nat) ^ 537 = 2 * 2 ^ 536" by simp
    also have "\<dots> \<le> M * 2 ^ 536" using M2 by (rule mult_le_mono1)
    also have "\<dots> \<le> M * 2 ^ (536 + c)"
    proof (rule mult_le_mono2)
      show "(2::nat) ^ 536 \<le> 2 ^ (536 + c)"
        by (rule power_increasing) simp_all
    qed
    finally have v: "(2::nat) ^ 537 \<le> M * 2 ^ (536 + c)" .
    have Mpos: "0 < M" using M2 by simp
    from round_double_lower [OF Mpos v] show ?thesis by (simp only: d E)
  next
    case False
    then have "int (p - k) = - (int k - int p)" by simp
    with ev have "even (int (p - k))" by simp
    then have "even (p - k)" by (metis even_of_nat)
    then obtain c where "p - k = 2 * c" by (elim evenE)
    with False have c: "p = k + 2 * c" by linarith
    have c56: "c \<le> 56" using p113 c by simp
    have E: "E = int (536 - c)" using c56 by (simp add: E_def c)
    have "(2::nat) ^ (2 * c) \<le> 2 ^ p" by (simp add: c)
    also have "\<dots> \<le> N" using apos by (simp add: N_def)
    finally have "2 ^ c \<le> R" unfolding R_def by (rule isqrt_lower)
    then have "2 * 2 ^ c \<le> M" by (simp add: M_def)
    then have "(2 * 2 ^ c) * 2 ^ (536 - c) \<le> M * 2 ^ (536 - c)" by (rule mult_le_mono1)
    moreover have "(2 * 2 ^ c) * 2 ^ (536 - c) = (2::nat) ^ 537"
    proof -
      have "(2 * 2 ^ c) * 2 ^ (536 - c) = (2::nat) ^ (Suc c + (536 - c))"
        by (simp only: power_add power_Suc)
      also have "Suc c + (536 - c) = 537" using c56 by simp
      finally show ?thesis .
    qed
    ultimately have v: "(2::nat) ^ 537 \<le> M * 2 ^ (536 - c)" by simp
    have Mpos: "0 < M" using M2 by simp
    from round_double_lower [OF Mpos v] show ?thesis by (simp only: d E)
  qed
qed

lemma round_double_pos:
  assumes M: "0 < M" and e: "0 \<le> e \<or> 2 ^ nat (- e) \<le> M"
  shows "dsign (round_double (int M) e) = 1"
proof -
  define n where "n = bitlen M"
  define t where "t = max 0 (e + int n - 53)"
  define s where "s = nat (t - e)"
  have r: "round_double (int M) e =
      (if s = 0 then finish 1 M (nat e) else finish 1 (round_magnitude M s) (nat t))"
    using round_double_pos_cases [OF M, of e] by (simp add: n_def t_def s_def)
  show ?thesis
  proof (cases "s = 0")
    case True
    with r show ?thesis by (simp add: dsign_finish [OF M])
  next
    case False
    have "2 ^ s \<le> M"
    proof (cases "0 \<le> e + int n - 53")
      case True
      then have "t = e + int n - 53" by (simp add: t_def)
      then have "int s = int n - 53" using False by (simp add: s_def)
      then have "s \<le> n - 1" by linarith
      then have "(2::nat) ^ s \<le> 2 ^ (n - 1)" by (rule power_increasing) simp
      also have "\<dots> \<le> M" using bitlen_bounds [OF M] by (simp add: n_def)
      finally show ?thesis .
    next
      case f: False
      then have t0: "t = 0" by (simp add: t_def)
      with False have "e < 0" "s = nat (- e)" by (simp_all add: s_def)
      with e show ?thesis by simp
    qed
    then have "1 \<le> M div 2 ^ s" by (simp add: less_eq_div_iff_mult_less_eq)
    with round_magnitude_ge [of M s] have "0 < round_magnitude M s" by linarith
    with r False show ?thesis by (simp add: dsign_finish)
  qed
qed

lemma dsign_one_shape: "dsign x = 1 \<Longrightarrow> x = PInf \<or> (\<exists>p k. x = Fin p k \<and> 0 < p)"
  by (cases x) (auto simp: sgn_if split: if_splits)

lemma dmul_of_roots_pos:
  assumes a: "(2::int) ^ 537 \<le> a * 2 ^ ka" and b: "(2::int) ^ 537 \<le> b * 2 ^ kb"
  shows "dsign (dmul (Fin a ka) (Fin b kb)) = 1"
proof -
  have apos: "0 < a"
  proof (rule ccontr)
    assume "\<not> 0 < a"
    then have "a * 2 ^ ka \<le> 0" by (simp add: mult_le_0_iff)
    moreover have "(0::int) < 2 ^ 537" by simp
    ultimately show False using a by linarith
  qed
  have bpos: "0 < b"
  proof (rule ccontr)
    assume "\<not> 0 < b"
    then have "b * 2 ^ kb \<le> 0" by (simp add: mult_le_0_iff)
    moreover have "(0::int) < 2 ^ 537" by simp
    ultimately show False using b by linarith
  qed
  define M where "M = nat (a * b)"
  define e where "e = int ka + int kb - 1074"
  have Mpos: "0 < M" using apos bpos by (simp add: M_def)
  have Mint: "int M = a * b" using apos bpos by (simp add: M_def)
  have cond: "0 \<le> e \<or> 2 ^ nat (- e) \<le> M"
  proof (cases "0 \<le> e")
    case True
    then show ?thesis by simp
  next
    case False
    then have ne: "nat (- e) + (ka + kb) = 1074" by (simp add: e_def)
    have "(2::int) ^ 537 * 2 ^ 537 \<le> (a * 2 ^ ka) * (b * 2 ^ kb)"
      using a b by (intro mult_mono) simp_all
    then have "(2::int) ^ 1074 \<le> (a * b) * 2 ^ (ka + kb)"
      by (simp add: power_add mult_ac flip: power_add)
    then have "(2::int) ^ nat (- e) * 2 ^ (ka + kb) \<le> (a * b) * 2 ^ (ka + kb)"
      by (simp only: ne flip: power_add)
    then have "(2::int) ^ nat (- e) \<le> a * b" by simp
    then have "int (2 ^ nat (- e)) \<le> int M" by (simp add: Mint)
    then have "2 ^ nat (- e) \<le> M" by (simp only: of_nat_le_iff)
    then show ?thesis by (rule disjI2)
  qed
  have "dmul (Fin a ka) (Fin b kb) = round_double (int M) e"
    by (simp add: Mint e_def)
  with round_double_pos [OF Mpos cond] show ?thesis by simp
qed

lemma dsqrt_Fin_lower:
  assumes "dsqrt x = Fin a ka" "a \<noteq> 0"
  shows "(2::int) ^ 537 \<le> a * 2 ^ ka"
proof (cases x)
  case (Fin m k)
  show ?thesis
  proof (cases "0 < m")
    case True
    from dsqrt_lower [OF True, of k] assms Fin show ?thesis by auto
  next
    case False
    with assms Fin show ?thesis by (auto split: if_splits)
  qed
qed (use assms in simp_all)

lemma ddiv_finite_not_nan:
  assumes "dsign y = 1"
  shows "\<not> is_nan (ddiv (Fin d kd) y)"
proof -
  from dsign_one_shape [OF assms] show ?thesis
    by (auto simp: Let_def not_nan_round_double)
qed

lemma cosine_finite_not_nan:
  assumes "prefix_dot tn (min (length as) (length bs)) as bs = Fin d kd"
    and "prefix_norm tn (min (length as) (length bs)) as = Fin a ka"
    and "prefix_norm tn (min (length as) (length bs)) bs = Fin b kb"
  shows "\<not> is_nan (cosine tn (Arr as) (Arr bs))"
proof -
  define L where "L = min (length as) (length bs)"
  have c: "cosine tn (Arr as) (Arr bs) =
      (if L = 0 \<or> deq (Fin a ka) zero \<or> deq (Fin b kb) zero then zero
       else ddiv (Fin d kd) (dmul (Fin a ka) (Fin b kb)))"
    using cosine_arrays [of tn as bs] assms by (simp only: Let_def L_def)
  show ?thesis
  proof (cases "L = 0 \<or> deq (Fin a ka) zero \<or> deq (Fin b kb) zero")
    case True
    with c show ?thesis by (simp add: zero_def)
  next
    case False
    then have nz: "a \<noteq> 0" "b \<noteq> 0" by (simp_all add: zero_def compare_zero_eval)
    have la: "(2::int) ^ 537 \<le> a * 2 ^ ka"
      using assms(2) nz(1) unfolding prefix_norm_def by (rule dsqrt_Fin_lower)
    have lb: "(2::int) ^ 537 \<le> b * 2 ^ kb"
      using assms(3) nz(2) unfolding prefix_norm_def by (rule dsqrt_Fin_lower)
    from dmul_of_roots_pos [OF la lb] have "\<not> is_nan (ddiv (Fin d kd) (dmul (Fin a ka) (Fin b kb)))"
      by (rule ddiv_finite_not_nan)
    with c False show ?thesis by (simp del: ddiv.simps dmul.simps(1))
  qed
qed

lemma cosine_zero_cases:
  "(\<not> isArray a \<or> \<not> isArray b \<longrightarrow> cosine tn a b = zero)
   \<and> (min (length as) (length bs) = 0 \<longrightarrow> cosine tn (Arr as) (Arr bs) = zero)
   \<and> (deq (prefix_norm tn (min (length as) (length bs)) as) zero
        \<or> deq (prefix_norm tn (min (length as) (length bs)) bs) zero
      \<longrightarrow> cosine tn (Arr as) (Arr bs) = zero)
   \<and> (list_all is_zero_num as \<or> list_all is_zero_num bs
      \<longrightarrow> cosine tn (Arr as) (Arr bs) = zero)
   \<and> (cosine tn (Arr as) (Arr bs) \<noteq> zero \<longrightarrow>
        min (length as) (length bs) \<noteq> 0
        \<and> \<not> deq (prefix_norm tn (min (length as) (length bs)) as) zero
        \<and> \<not> deq (prefix_norm tn (min (length as) (length bs)) bs) zero
        \<and> cosine tn (Arr as) (Arr bs) =
            ddiv (prefix_dot tn (min (length as) (length bs)) as bs)
              (dmul (prefix_norm tn (min (length as) (length bs)) as)
                 (prefix_norm tn (min (length as) (length bs)) bs)))
   \<and> (is_finite (prefix_dot tn (min (length as) (length bs)) as bs)
        \<and> is_finite (prefix_norm tn (min (length as) (length bs)) as)
        \<and> is_finite (prefix_norm tn (min (length as) (length bs)) bs)
      \<longrightarrow> \<not> is_nan (cosine tn (Arr as) (Arr bs)))"
proof -
  define L where "L = min (length as) (length bs)"
  have c: "cosine tn (Arr as) (Arr bs) =
      (if L = 0 \<or> deq (prefix_norm tn L as) zero \<or> deq (prefix_norm tn L bs) zero then zero
       else ddiv (prefix_dot tn L as bs) (dmul (prefix_norm tn L as) (prefix_norm tn L bs)))"
    unfolding L_def by (rule cosine_arrays [unfolded Let_def])
  have z: "cosine tn (Arr as) (Arr bs) = zero"
    if "list_all is_zero_num as \<or> list_all is_zero_num bs"
  proof -
    from that have "prefix_norm tn L as = zero \<or> prefix_norm tn L bs = zero"
      using prefix_norm_zero_vector [of as L tn] prefix_norm_zero_vector [of bs L tn]
      by (auto simp: L_def)
    then show ?thesis unfolding c using deq_zero_zero by auto
  qed
  have n: "\<not> isArray a \<or> \<not> isArray b \<longrightarrow> cosine tn a b = zero"
    by (auto simp: cosine_def)
  have f: "\<not> is_nan (cosine tn (Arr as) (Arr bs))"
    if "is_finite (prefix_dot tn L as bs) \<and> is_finite (prefix_norm tn L as)
        \<and> is_finite (prefix_norm tn L bs)"
  proof -
    from that obtain d kd a ka b kb where "prefix_dot tn L as bs = Fin d kd"
      "prefix_norm tn L as = Fin a ka" "prefix_norm tn L bs = Fin b kb"
      by (metis is_finite.elims(2))
    then show ?thesis
      unfolding L_def by (rule cosine_finite_not_nan)
  qed
  have g: "cosine tn (Arr as) (Arr bs) \<noteq> zero \<longrightarrow>
        L \<noteq> 0 \<and> \<not> deq (prefix_norm tn L as) zero \<and> \<not> deq (prefix_norm tn L bs) zero
        \<and> cosine tn (Arr as) (Arr bs) =
            ddiv (prefix_dot tn L as bs) (dmul (prefix_norm tn L as) (prefix_norm tn L bs))"
    unfolding c by auto
  have h: "(L = 0 \<longrightarrow> cosine tn (Arr as) (Arr bs) = zero)
    \<and> (deq (prefix_norm tn L as) zero \<or> deq (prefix_norm tn L bs) zero
      \<longrightarrow> cosine tn (Arr as) (Arr bs) = zero)"
    unfolding c by auto
  show ?thesis
    unfolding L_def [symmetric]
  proof (intro conjI)
    show "\<not> isArray a \<or> \<not> isArray b \<longrightarrow> cosine tn a b = zero"
      by (rule n)
    show "L = 0 \<longrightarrow> cosine tn (Arr as) (Arr bs) = zero"
      using h by (rule conjunct1)
    show "deq (prefix_norm tn L as) zero \<or> deq (prefix_norm tn L bs) zero
      \<longrightarrow> cosine tn (Arr as) (Arr bs) = zero"
      using h by (rule conjunct2)
    show "list_all is_zero_num as \<or> list_all is_zero_num bs
      \<longrightarrow> cosine tn (Arr as) (Arr bs) = zero"
      using z by (rule impI)
    show "cosine tn (Arr as) (Arr bs) \<noteq> zero \<longrightarrow>
        L \<noteq> 0 \<and> \<not> deq (prefix_norm tn L as) zero \<and> \<not> deq (prefix_norm tn L bs) zero
        \<and> cosine tn (Arr as) (Arr bs) =
            ddiv (prefix_dot tn L as bs) (dmul (prefix_norm tn L as) (prefix_norm tn L bs))"
      by (rule g)
    show "is_finite (prefix_dot tn L as bs) \<and> is_finite (prefix_norm tn L as)
        \<and> is_finite (prefix_norm tn L bs)
      \<longrightarrow> \<not> is_nan (cosine tn (Arr as) (Arr bs))"
      using f by (rule impI)
  qed
qed

text \<open>
  Claim C5, as amended. \<open>cosineSimilarity\<close> returns 0 when an argument is missing or
  not an array and when the common prefix length is 0. On two arrays it throws (a
  TypeError) exactly when an element below the common length has no primitive, which
  no array of numbers has; otherwise it returns a number: 0 when either prefix norm is
  0, so a vector of zeros on either side gives exactly 0, and whenever the result is
  not 0 both norms are not 0 and the result is the quotient. The result is not NaN
  whenever the dot product and the two norms over the common prefix are finite.
\<close>

theorem cosineSimilarity_zero_cases:
  "(\<not> isArray a \<or> \<not> isArray b \<longrightarrow> cosineSimilarity tn a b = Inr zero)
   \<and> (min (length as) (length bs) = 0 \<longrightarrow> cosineSimilarity tn (Arr as) (Arr bs) = Inr zero)
   \<and> ((\<exists>e. cosineSimilarity tn (Arr as) (Arr bs) = Inl e) \<longleftrightarrow> unconvertible as bs)
   \<and> (unconvertible as bs \<longrightarrow> cosineSimilarity tn (Arr as) (Arr bs) = Inl TypeError)
   \<and> (\<exists>c. cosineSimilarity tn (Arr (map Num ds)) (Arr (map Num es)) = Inr c)
   \<and> (\<not> unconvertible as bs \<longrightarrow>
        (\<exists>c. cosineSimilarity tn (Arr as) (Arr bs) = Inr c)
        \<and> (deq (prefix_norm tn (min (length as) (length bs)) as) zero
             \<or> deq (prefix_norm tn (min (length as) (length bs)) bs) zero
           \<longrightarrow> cosineSimilarity tn (Arr as) (Arr bs) = Inr zero)
        \<and> (list_all is_zero_num as \<or> list_all is_zero_num bs
           \<longrightarrow> cosineSimilarity tn (Arr as) (Arr bs) = Inr zero)
        \<and> (cosineSimilarity tn (Arr as) (Arr bs) \<noteq> Inr zero \<longrightarrow>
             min (length as) (length bs) \<noteq> 0
             \<and> \<not> deq (prefix_norm tn (min (length as) (length bs)) as) zero
             \<and> \<not> deq (prefix_norm tn (min (length as) (length bs)) bs) zero
             \<and> cosineSimilarity tn (Arr as) (Arr bs) =
                 Inr (ddiv (prefix_dot tn (min (length as) (length bs)) as bs)
                        (dmul (prefix_norm tn (min (length as) (length bs)) as)
                           (prefix_norm tn (min (length as) (length bs)) bs))))
        \<and> (is_finite (prefix_dot tn (min (length as) (length bs)) as bs)
             \<and> is_finite (prefix_norm tn (min (length as) (length bs)) as)
             \<and> is_finite (prefix_norm tn (min (length as) (length bs)) bs)
           \<longrightarrow> (\<exists>c. cosineSimilarity tn (Arr as) (Arr bs) = Inr c \<and> \<not> is_nan c)))"
proof -
  note old = cosine_zero_cases [of a b tn as bs]
  have n: "\<not> isArray a \<or> \<not> isArray b \<longrightarrow> cosineSimilarity tn a b = Inr zero"
    by (auto simp: cosineSimilarity_not_arrays)
  have l: "min (length as) (length bs) = 0 \<longrightarrow> cosineSimilarity tn (Arr as) (Arr bs) = Inr zero"
    by (auto simp: cosineSimilarity_def)
  have t: "(\<exists>e. cosineSimilarity tn (Arr as) (Arr bs) = Inl e) \<longleftrightarrow> unconvertible as bs"
    by (simp add: cosineSimilarity_arrays_value)
  have u: "unconvertible as bs \<longrightarrow> cosineSimilarity tn (Arr as) (Arr bs) = Inl TypeError"
    by (simp add: cosineSimilarity_arrays_value)
  have d: "\<exists>c. cosineSimilarity tn (Arr (map Num ds)) (Arr (map Num es)) = Inr c"
    by (simp add: cosineSimilarity_numbers)
  have v: "cosineSimilarity tn (Arr as) (Arr bs) = Inr (cosine tn (Arr as) (Arr bs))"
    if "\<not> unconvertible as bs"
    using that by (simp add: cosineSimilarity_arrays_value)
  have w: "(\<exists>c. cosineSimilarity tn (Arr as) (Arr bs) = Inr c)
        \<and> (deq (prefix_norm tn (min (length as) (length bs)) as) zero
             \<or> deq (prefix_norm tn (min (length as) (length bs)) bs) zero
           \<longrightarrow> cosineSimilarity tn (Arr as) (Arr bs) = Inr zero)
        \<and> (list_all is_zero_num as \<or> list_all is_zero_num bs
           \<longrightarrow> cosineSimilarity tn (Arr as) (Arr bs) = Inr zero)
        \<and> (cosineSimilarity tn (Arr as) (Arr bs) \<noteq> Inr zero \<longrightarrow>
             min (length as) (length bs) \<noteq> 0
             \<and> \<not> deq (prefix_norm tn (min (length as) (length bs)) as) zero
             \<and> \<not> deq (prefix_norm tn (min (length as) (length bs)) bs) zero
             \<and> cosineSimilarity tn (Arr as) (Arr bs) =
                 Inr (ddiv (prefix_dot tn (min (length as) (length bs)) as bs)
                        (dmul (prefix_norm tn (min (length as) (length bs)) as)
                           (prefix_norm tn (min (length as) (length bs)) bs))))
        \<and> (is_finite (prefix_dot tn (min (length as) (length bs)) as bs)
             \<and> is_finite (prefix_norm tn (min (length as) (length bs)) as)
             \<and> is_finite (prefix_norm tn (min (length as) (length bs)) bs)
           \<longrightarrow> (\<exists>c. cosineSimilarity tn (Arr as) (Arr bs) = Inr c \<and> \<not> is_nan c))"
    if c: "\<not> unconvertible as bs"
  proof (intro conjI)
    show "\<exists>c. cosineSimilarity tn (Arr as) (Arr bs) = Inr c"
      using v [OF c] by blast
    show "deq (prefix_norm tn (min (length as) (length bs)) as) zero
         \<or> deq (prefix_norm tn (min (length as) (length bs)) bs) zero
        \<longrightarrow> cosineSimilarity tn (Arr as) (Arr bs) = Inr zero"
      using old [THEN conjunct2, THEN conjunct2, THEN conjunct1] by (simp only: v [OF c]) simp
    show "list_all is_zero_num as \<or> list_all is_zero_num bs
        \<longrightarrow> cosineSimilarity tn (Arr as) (Arr bs) = Inr zero"
      using old [THEN conjunct2, THEN conjunct2, THEN conjunct2, THEN conjunct1]
      by (simp only: v [OF c]) simp
    show "cosineSimilarity tn (Arr as) (Arr bs) \<noteq> Inr zero \<longrightarrow>
        min (length as) (length bs) \<noteq> 0
        \<and> \<not> deq (prefix_norm tn (min (length as) (length bs)) as) zero
        \<and> \<not> deq (prefix_norm tn (min (length as) (length bs)) bs) zero
        \<and> cosineSimilarity tn (Arr as) (Arr bs) =
            Inr (ddiv (prefix_dot tn (min (length as) (length bs)) as bs)
                   (dmul (prefix_norm tn (min (length as) (length bs)) as)
                      (prefix_norm tn (min (length as) (length bs)) bs)))"
      using old [THEN conjunct2, THEN conjunct2, THEN conjunct2, THEN conjunct2, THEN conjunct1]
      by (simp only: v [OF c]) simp
    show "is_finite (prefix_dot tn (min (length as) (length bs)) as bs)
         \<and> is_finite (prefix_norm tn (min (length as) (length bs)) as)
         \<and> is_finite (prefix_norm tn (min (length as) (length bs)) bs)
        \<longrightarrow> (\<exists>c. cosineSimilarity tn (Arr as) (Arr bs) = Inr c \<and> \<not> is_nan c)"
      using old [THEN conjunct2, THEN conjunct2, THEN conjunct2, THEN conjunct2, THEN conjunct2]
      by (simp only: v [OF c]) simp
  qed
  from n l t u d impI [OF w] show ?thesis by (intro conjI)
qed

theorem cosineSimilarity_zero_cases_witness:
  "cosineSimilarity tn_sample Undefined (Arr [Num one]) = Inr zero
   \<and> cosineSimilarity tn_sample (Arr []) (Arr [Num one]) = Inr zero
   \<and> \<not> unconvertible [Num zero, Num zero] [Num one, Num d1e200]
   \<and> cosineSimilarity tn_sample (Arr [Num zero, Num zero]) (Arr [Num one, Num d1e200]) = Inr zero
   \<and> unconvertible [Num zero, Num zero] [Num one, Arr [Obj [(''toString'', Null)]]]
   \<and> cosineSimilarity tn_sample (Arr [Num zero, Num zero])
        (Arr [Num one, Arr [Obj [(''toString'', Null)]]]) = Inl TypeError
   \<and> is_finite (prefix_dot tn_sample 2 [Num one, Num zero] [Num d060, Num (Fin 3602879701896397 1022)])
   \<and> is_finite (prefix_norm tn_sample 2 [Num one, Num zero])
   \<and> is_finite (prefix_norm tn_sample 2 [Num d060, Num (Fin 3602879701896397 1022)])
   \<and> (\<exists>c. cosineSimilarity tn_sample (Arr [Num one, Num zero])
             (Arr [Num d060, Num (Fin 3602879701896397 1022)]) = Inr c \<and> \<not> is_nan c)"
proof -
  note t1 = cosineSimilarity_zero_cases [of Undefined "Arr [Num one]" tn_sample "[]" "[Num one]" "[]" "[]"]
  note t2 = cosineSimilarity_zero_cases [of Undefined "Arr [Num one]" tn_sample
      "[Num zero, Num zero]" "[Num one, Num d1e200]" "[]" "[]"]
  note t3 = cosineSimilarity_zero_cases [of Undefined "Arr [Num one]" tn_sample
      "[Num one, Num zero]" "[Num d060, Num (Fin 3602879701896397 1022)]" "[]" "[]"]
  note t4 = cosineSimilarity_zero_cases [of Undefined "Arr [Num one]" tn_sample
      "[Num zero, Num zero]" "[Num one, Arr [Obj [(''toString'', Null)]]]" "[]" "[]"]
  have f: "is_finite (prefix_dot tn_sample 2 [Num one, Num zero] [Num d060, Num (Fin 3602879701896397 1022)])"
    "is_finite (prefix_norm tn_sample 2 [Num one, Num zero])"
    "is_finite (prefix_norm tn_sample 2 [Num d060, Num (Fin 3602879701896397 1022)])"
    by (simp_all add: prefix2 eval_double d060_def cong: let_weak_cong split del: if_split)
  have u2: "\<not> unconvertible [Num zero, Num zero] [Num one, Num d1e200]"
    and u3: "\<not> unconvertible [Num one, Num zero] [Num d060, Num (Fin 3602879701896397 1022)]"
    and u4: "unconvertible [Num zero, Num zero] [Num one, Arr [Obj [(''toString'', Null)]]]"
    by (simp_all add: unconvertible_def)
  have w1: "cosineSimilarity tn_sample Undefined (Arr [Num one]) = Inr zero"
    using t1 [THEN conjunct1] by simp
  have w2: "cosineSimilarity tn_sample (Arr []) (Arr [Num one]) = Inr zero"
    using t1 [THEN conjunct2, THEN conjunct1] by simp
  have w3: "cosineSimilarity tn_sample (Arr [Num zero, Num zero]) (Arr [Num one, Num d1e200]) = Inr zero"
    using t2 [THEN conjunct2, THEN conjunct2, THEN conjunct2, THEN conjunct2, THEN conjunct2,
        THEN mp, OF u2, THEN conjunct2, THEN conjunct2, THEN conjunct1]
    by (simp add: zero_def)
  have w4: "\<exists>c. cosineSimilarity tn_sample (Arr [Num one, Num zero])
          (Arr [Num d060, Num (Fin 3602879701896397 1022)]) = Inr c \<and> \<not> is_nan c"
    using t3 [THEN conjunct2, THEN conjunct2, THEN conjunct2, THEN conjunct2, THEN conjunct2,
        THEN mp, OF u3, THEN conjunct2, THEN conjunct2, THEN conjunct2, THEN conjunct2] f
    by (simp add: numeral_2_eq_2)
  have w5: "cosineSimilarity tn_sample (Arr [Num zero, Num zero])
        (Arr [Num one, Arr [Obj [(''toString'', Null)]]]) = Inl TypeError"
    using t4 [THEN conjunct2, THEN conjunct2, THEN conjunct2, THEN conjunct1] u4 by (rule mp)
  from w1 w2 u2 w3 u4 w5 f w4 show ?thesis by (intro conjI)
qed

text \<open>
  The claim as stated fails: for \<open>a = b = [1e200]\<close> the squares overflow to Infinity, both
  norms are Infinity, and Infinity / (Infinity * Infinity) is NaN; and for
  \<open>a = [1]\<close>, \<open>b = [{"toString": null}]\<close> the multiplication throws a TypeError.
\<close>

theorem cosineSimilarity_can_be_nan:
  "cosineSimilarity tn_sample (Arr [Num d1e200]) (Arr [Num d1e200]) = Inr NaN
   \<and> cosineSimilarity tn_sample (Arr [Num one]) (Arr [Obj [(''toString'', Null)]]) = Inl TypeError"
proof -
  have "cosine tn_sample (Arr [Num d1e200]) (Arr [Num d1e200]) = NaN"
    by (simp add: cosine_def num_of_def d1e200_def eval_double
        cong: let_weak_cong split del: if_split)
  with cosineSimilarity_numbers [of tn_sample "[d1e200]" "[d1e200]"]
  have "cosineSimilarity tn_sample (Arr [Num d1e200]) (Arr [Num d1e200]) = Inr NaN"
    by simp
  moreover have "cosineSimilarity tn_sample (Arr [Num one]) (Arr [Obj [(''toString'', Null)]]) =
      Inl TypeError"
    by (simp add: cosineSimilarity_arrays_value unconvertible_def)
  ultimately show ?thesis by (rule conjI)
qed

section \<open>A vector with itself and with its negation\<close>

lemma normalise_neg: "normalise (- m) k = dneg (normalise m k)"
proof (induction m k rule: normalise.induct)
  case (1 m k)
  show ?case
  proof (cases "m = 0")
    case True
    then show ?thesis by (simp add: normalise.simps [of 0])
  next
    case False
    show ?thesis
    proof (cases "even m")
      case True
      then have d: "(- m) div 2 = - (m div 2)" by (auto elim!: evenE)
      from True False 1 have "normalise (- (m div 2)) (Suc k) = dneg (normalise (m div 2) (Suc k))"
        by simp
      with True False d show ?thesis
        by (simp add: normalise.simps [of m] normalise.simps [of "- m"])
    next
      case odd: False
      with False show ?thesis
        by (simp add: normalise.simps [of m] normalise.simps [of "- m"])
    qed
  qed
qed

lemma finish_neg: "0 < q \<Longrightarrow> sg \<noteq> 0 \<Longrightarrow> finish (- sg) q t = dneg (finish sg q t)"
  using normalise_neg [of "sg * int q" t] by (auto simp: finish_def)

lemma finish_zero: "finish sg 0 t = Fin 0 0"
  by (simp add: finish_def)

lemma round_double_neg: "round_double (- m) e = dneg (round_double m e)"
proof (cases "m = 0")
  case True
  then show ?thesis by (simp add: round_double_0)
next
  case False
  define a where "a = nat \<bar>m\<bar>"
  define t where "t = max 0 (e + int (bitlen a) - 53)"
  define s where "s = nat (t - e)"
  have sg: "sgn m \<noteq> 0" "sgn (- m) = - sgn m" using False by (simp_all add: sgn_if)
  have r: "round_double x e =
      (if s = 0 then finish (sgn x) a (nat e) else finish (sgn x) (round_magnitude a s) (nat t))"
    if "nat \<bar>x\<bar> = a" for x
    unfolding round_double_def Let_def that t_def s_def ..
  have f: "finish (- sgn m) q u = dneg (finish (sgn m) q u)" for q u
    by (cases "q = 0") (simp_all add: finish_zero finish_neg sg)
  have "round_double (- m) e =
      (if s = 0 then finish (- sgn m) a (nat e) else finish (- sgn m) (round_magnitude a s) (nat t))"
    using r [of "- m"] by (simp add: a_def sg)
  also have "\<dots> = dneg (round_double m e)"
    using r [of m] by (simp add: a_def f)
  finally show ?thesis .
qed

lemma dmul_neg_right: "dmul a (dneg b) = dneg (dmul a b)"
  by (cases a; cases b) (simp_all add: round_double_neg Let_def sgn_if)

lemma dmul_neg_neg: "dmul (dneg a) (dneg a) = dmul a a"
  by (cases a) (simp_all add: Let_def)

lemma dadd_neg: "dadd (dneg a) (dneg b) = dneg (dadd a b)"
proof (cases a)
  case (Fin m1 k1)
  show ?thesis
  proof (cases b)
    case (Fin m2 k2)
    have h: "- m1 * 2 ^ (k1 - min k1 k2) + - m2 * 2 ^ (k2 - min k1 k2) =
        - (m1 * 2 ^ (k1 - min k1 k2) + m2 * 2 ^ (k2 - min k1 k2))"
      by simp
    have "round_double (- m1 * 2 ^ (k1 - min k1 k2) + - m2 * 2 ^ (k2 - min k1 k2)) (int (min k1 k2)) =
        dneg (round_double (m1 * 2 ^ (k1 - min k1 k2) + m2 * 2 ^ (k2 - min k1 k2)) (int (min k1 k2)))"
      by (simp only: h round_double_neg)
    then show ?thesis using \<open>a = Fin m1 k1\<close> Fin
      by (simp add: Let_def round_double_neg del: mult_minus_left)
  qed (use Fin in simp_all)
qed (cases b; simp)+

lemma ddiv_neg_left: "ddiv (dneg a) b = dneg (ddiv a b)"
proof (cases a)
  case (Fin m1 k1)
  show ?thesis
  proof (cases b)
    case (Fin m2 k2)
    show ?thesis
    proof (cases "m2 = 0")
      case True
      with \<open>a = Fin m1 k1\<close> Fin show ?thesis by simp
    next
      case False
      have "sgn (- m1) * sgn m2 * x = - (sgn m1 * sgn m2 * x)" for x
        by (simp add: sgn_if)
      with False \<open>a = Fin m1 k1\<close> Fin show ?thesis
        by (simp add: Let_def flip: round_double_neg)
    qed
  qed (use Fin in simp_all)
qed (cases b; simp)+

lemma dneg_zero: "dneg zero = zero"
  by (simp add: zero_def)

lemma foldl_dadd_neg: "foldl dadd (dneg z) (map dneg xs) = dneg (foldl dadd z xs)"
  by (induction xs arbitrary: z) (simp_all add: dadd_neg)

lemma float_sum_neg: "float_sum (map dneg xs) = dneg (float_sum xs)"
  using foldl_dadd_neg [of zero xs] by (simp add: float_sum_def dneg_zero)

lemma ddiv_self: "m \<noteq> 0 \<Longrightarrow> ddiv (Fin m k) (Fin m k) = one"
proof -
  assume m: "m \<noteq> 0"
  then have s: "sgn m * sgn m = 1" by (simp add: sgn_if)
  have a: "0 < nat \<bar>m\<bar>" using m by simp
  have q: "nat \<bar>m\<bar> * 2 ^ 56 div nat \<bar>m\<bar> = 2 ^ 56" "nat \<bar>m\<bar> * 2 ^ 56 mod nat \<bar>m\<bar> = 0"
    using a by simp_all
  have "ddiv (Fin m k) (Fin m k) = round_double 144115188075855872 1017"
    using m by (simp add: Let_def q s)
  also have "\<dots> = one"
    by (simp add: eval_double cong: let_weak_cong split del: if_split)
  finally show ?thesis .
qed

lemma numeric_norm: "prefix_norm tn (length ds) (map Num ds) = dsqrt (sum_squares ds)"
proof -
  have "map (\<lambda>i. dmul (num_of tn (map Num ds ! i)) (num_of tn (map Num ds ! i))) [0..<length ds] =
      map (\<lambda>d. dmul d d) ds"
    by (rule nth_equalityI) (simp_all add: num_of_def)
  then show ?thesis by (simp only: prefix_norm_def sum_squares_def)
qed

lemma sum_squares_neg: "sum_squares (map dneg ds) = sum_squares ds"
  by (simp add: sum_squares_def comp_def dmul_neg_neg)

lemma numeric_dot_self: "prefix_dot tn (length ds) (map Num ds) (map Num ds) = sum_squares ds"
proof -
  have "map (\<lambda>i. dmul (num_of tn (map Num ds ! i)) (num_of tn (map Num ds ! i))) [0..<length ds] =
      map (\<lambda>d. dmul d d) ds"
    by (rule nth_equalityI) (simp_all add: num_of_def)
  then show ?thesis by (simp only: prefix_dot_def sum_squares_def)
qed

lemma numeric_dot_neg:
  "prefix_dot tn (length ds) (map Num ds) (map Num (map dneg ds)) = dneg (sum_squares ds)"
proof -
  have "map (\<lambda>i. dmul (num_of tn (map Num ds ! i)) (num_of tn (map Num (map dneg ds) ! i)))
        [0..<length ds] = map dneg (map (\<lambda>d. dmul d d) ds)"
    by (rule nth_equalityI) (simp_all add: num_of_def dmul_neg_right)
  then show ?thesis by (simp only: prefix_dot_def sum_squares_def float_sum_neg)
qed

lemma cosine_self:
  "cosine tn (Arr (map Num ds)) (Arr (map Num ds)) =
     (if length ds = 0 \<or> deq (dsqrt (sum_squares ds)) zero then zero
      else ddiv (sum_squares ds) (dmul (dsqrt (sum_squares ds)) (dsqrt (sum_squares ds))))"
  using cosine_arrays [of tn "map Num ds" "map Num ds"]
  by (simp add: Let_def numeric_norm numeric_dot_self)

lemma cosine_negation:
  "cosine tn (Arr (map Num ds)) (Arr (map Num (map dneg ds))) =
     (if length ds = 0 \<or> deq (dsqrt (sum_squares ds)) zero then zero
      else ddiv (dneg (sum_squares ds)) (dmul (dsqrt (sum_squares ds)) (dsqrt (sum_squares ds))))"
  using cosine_arrays [of tn "map Num ds" "map Num (map dneg ds)"]
    numeric_norm [of tn "map dneg ds"]
  by (simp add: Let_def numeric_norm numeric_dot_neg sum_squares_neg del: map_map)

lemma sum_squares_Nil: "sum_squares [] = Fin 0 0"
  by (simp add: sum_squares_def float_sum_def zero_def)

subsection \<open>Doubles have one representation\<close>

lemma normalise_odd: "normalise m k = Fin m' k' \<Longrightarrow> odd m' \<or> (m' = 0 \<and> k' = 0)"
proof (induction m k rule: normalise.induct)
  case (1 m k)
  show ?case
  proof (cases "m = 0")
    case True
    with 1(2) show ?thesis by (simp add: normalise.simps [of 0])
  next
    case False
    show ?thesis
    proof (cases "even m")
      case True
      with False 1(2) have "normalise (m div 2) (Suc k) = Fin m' k'"
        by (simp add: normalise.simps [of m])
      with 1(1) False True show ?thesis by simp
    next
      case odd: False
      with False 1(2) show ?thesis by (simp add: normalise.simps [of m])
    qed
  qed
qed

lemma finish_odd: "finish sg q t = Fin m' k' \<Longrightarrow> odd m' \<or> (m' = 0 \<and> k' = 0)"
  by (auto simp: finish_def dest: normalise_odd split: if_splits)

lemma round_double_odd: "round_double m e = Fin m' k' \<Longrightarrow> odd m' \<or> (m' = 0 \<and> k' = 0)"
  unfolding round_double_def Let_def by (auto dest: finish_odd split: if_splits)

lemma dmul_odd: "dmul a b = Fin m k \<Longrightarrow> odd m \<or> (m = 0 \<and> k = 0)"
  by (cases a; cases b) (auto simp: Let_def dest: round_double_odd split: if_splits)

lemma dadd_odd: "dadd a b = Fin m k \<Longrightarrow> odd m \<or> (m = 0 \<and> k = 0)"
  by (cases a; cases b) (auto simp: Let_def dest: round_double_odd split: if_splits)

lemma float_sum_odd: "float_sum xs = Fin m k \<Longrightarrow> odd m \<or> (m = 0 \<and> k = 0)"
proof (cases xs rule: rev_cases)
  case Nil
  assume "float_sum xs = Fin m k"
  with Nil show ?thesis by (simp add: float_sum_def zero_def)
next
  case (snoc ys y)
  assume "float_sum xs = Fin m k"
  with snoc have "dadd (foldl dadd zero ys) y = Fin m k" by (simp add: float_sum_def)
  then show ?thesis by (rule dadd_odd)
qed

lemma odd_mantissa_unique_le:
  fixes m m' :: int
  assumes "odd m'" "m * 2 ^ k = m' * 2 ^ k'" "k' \<le> k"
  shows "m = m' \<and> k = k'"
proof -
  from assms(3) obtain j where j: "k = k' + j" by (auto simp: le_iff_add)
  with assms(2) have "m * 2 ^ j * 2 ^ k' = m' * 2 ^ k'" by (simp add: power_add mult_ac)
  then have e: "m * 2 ^ j = m'" by simp
  with assms(1) have "j = 0" by (cases j) auto
  with e j show ?thesis by simp
qed

lemma canonical_unique:
  fixes m m' :: int
  assumes "odd m \<or> (m = 0 \<and> k = 0)" "odd m' \<or> (m' = 0 \<and> k' = 0)"
    and "m * 2 ^ k = m' * 2 ^ k'"
  shows "m = m' \<and> k = k'"
proof (cases "m = 0 \<or> m' = 0")
  case True
  with assms(3) have "m = 0 \<and> m' = 0" by auto
  with assms(1,2) show ?thesis by auto
next
  case False
  with assms(1,2) have o: "odd m" "odd m'" by auto
  show ?thesis
  proof (cases "k' \<le> k")
    case True
    with o(2) assms(3) show ?thesis by (rule odd_mantissa_unique_le [of m' m k k'])
  next
    case False
    then have "k \<le> k'" by simp
    with o(1) assms(3) [symmetric] have "m' = m \<and> k' = k"
      by (rule odd_mantissa_unique_le [of m m' k' k])
    then show ?thesis by simp
  qed
qed

lemma deq_canonical:
  assumes "deq a (Fin m k)" "odd m \<or> (m = 0 \<and> k = 0)"
    and "\<And>p j. a = Fin p j \<Longrightarrow> odd p \<or> (p = 0 \<and> j = 0)"
  shows "a = Fin m k"
proof (cases a)
  case (Fin p j)
  with assms(1) have "p * 2 ^ j = m * 2 ^ k" by (simp add: deq_Fin)
  with assms(3) [OF Fin] assms(2) have "p = m \<and> j = k" by (rule canonical_unique [of p j m k])
  with Fin show ?thesis by simp
qed (use assms(1) in simp_all)

lemma exact_root_not_zero:
  assumes "0 < m" "dmul n n = Fin m k"
  shows "\<not> deq n zero"
proof
  assume "deq n zero"
  then obtain j where "n = Fin 0 j"
    by (cases n) (auto simp: zero_def deq_Fin)
  with assms show False by (simp add: round_double_0)
qed

subsection \<open>The rounding of a result\<close>

text \<open>
  Values are counted in units of \<open>2 ^ (-1074)\<close>. Rounding a magnitude to a multiple of
  \<open>2 ^ s\<close> moves it by at most half of \<open>2 ^ s\<close>, and a result below \<open>2 ^ 2098\<close> units
  is kept as it is.
\<close>

lemma bitlen_unique:
  assumes "2 ^ j \<le> a" "a < 2 ^ Suc j"
  shows "bitlen a = Suc j"
proof -
  have a: "0 < a" using assms(1) by (metis less_le_trans zero_less_numeral zero_less_power)
  from bitlen_bounds [OF a] have b: "2 ^ (bitlen a - 1) \<le> a" "a < 2 ^ bitlen a" by simp_all
  from assms(1) b(2) have h1: "(2::nat) ^ j < 2 ^ bitlen a" by linarith
  have 1: "j < bitlen a" by (rule power_less_imp_less_exp [OF _ h1]) simp
  from b(1) assms(2) have h2: "(2::nat) ^ (bitlen a - 1) < 2 ^ Suc j" by linarith
  have 2: "bitlen a - 1 < Suc j" by (rule power_less_imp_less_exp [OF _ h2]) simp
  from 1 2 show ?thesis by linarith
qed

lemma bitlen_scaled:
  assumes "0 < a"
  shows "bitlen (a * 2 ^ j) = bitlen a + j"
proof -
  from bitlen_pos [OF assms] obtain i where i: "bitlen a = Suc i" by (cases "bitlen a") auto
  from bitlen_bounds [OF assms] i have b: "2 ^ i \<le> a" "a < 2 ^ Suc i" by simp_all
  have "2 ^ i * 2 ^ j \<le> a * 2 ^ j" using b(1) by (rule mult_le_mono1)
  then have 1: "2 ^ (i + j) \<le> a * 2 ^ j" by (simp only: power_add)
  have "a * 2 ^ j < 2 ^ Suc i * 2 ^ j" using b(2) by simp
  then have 2: "a * 2 ^ j < 2 ^ Suc (i + j)" by (simp add: power_add)
  from bitlen_unique [OF 1 2] i show ?thesis by simp
qed

lemma bitlen_less_iff:
  assumes "0 < a"
  shows "bitlen a \<le> n \<longleftrightarrow> a < 2 ^ n"
proof
  assume "bitlen a \<le> n"
  then have "(2::nat) ^ bitlen a \<le> 2 ^ n" by (rule power_increasing) simp
  with bitlen_bounds [OF assms] show "a < 2 ^ n" by linarith
next
  assume h: "a < 2 ^ n"
  from bitlen_bounds [OF assms] h have h2: "(2::nat) ^ (bitlen a - 1) < 2 ^ n" by linarith
  have "bitlen a - 1 < n" by (rule power_less_imp_less_exp [OF _ h2]) simp
  then show "bitlen a \<le> n" by linarith
qed

lemma round_magnitude_error:
  assumes "0 < s"
  shows "2 * round_magnitude a s * 2 ^ s \<le> 2 * a + 2 ^ s
    \<and> 2 * a \<le> 2 * round_magnitude a s * 2 ^ s + 2 ^ s"
proof -
  define q where "q = a div 2 ^ s"
  define r where "r = a mod 2 ^ s"
  define h where "h = (2::nat) ^ (s - 1)"
  from assms have hh: "(2::nat) ^ s = 2 * h"
    by (cases s) (simp_all add: h_def)
  have a: "a = q * (2 * h) + r"
    unfolding q_def r_def hh [symmetric] by (rule div_mult_mod_eq [symmetric])
  have r: "r < 2 * h" by (simp add: r_def flip: hh)
  have rm: "round_magnitude a s = (if h < r \<or> (r = h \<and> odd q) then q + 1 else q)"
    by (simp add: round_magnitude_def Let_def q_def r_def h_def)
  show ?thesis
  proof (cases "h < r \<or> (r = h \<and> odd q)")
    case True
    then have "h \<le> r" by auto
    with True rm a r show ?thesis by (simp add: hh algebra_simps)
  next
    case False
    then have "r \<le> h" by auto
    with False rm a r show ?thesis by (simp add: hh algebra_simps)
  qed
qed

lemma finish_value:
  assumes "0 < q" "q * 2 ^ t < 2 ^ 2098"
  shows "\<exists>m' k'. finish 1 q t = Fin m' k' \<and> m' * 2 ^ k' = int q * 2 ^ t"
proof -
  have "0 < q * 2 ^ t" using assms(1) by simp
  from bitlen_less_iff [OF this, of 2098] assms(2) have "bitlen (q * 2 ^ t) \<le> 2098" by simp
  then have "\<not> 2098 < bitlen q + t" by (simp add: bitlen_scaled [OF assms(1)])
  with assms(1) normalise_shape [of "int q" t] show ?thesis by (simp add: finish_def)
qed

text \<open>round_double on a positive mantissa.\<close>

lemma round_double_exact:
  assumes a: "0 < a" and e: "0 \<le> e" and b: "bitlen a \<le> 53" and f: "a * 2 ^ nat e < 2 ^ 2098"
  shows "\<exists>m' k'. round_double (int a) e = Fin m' k' \<and> m' * 2 ^ k' = int a * 2 ^ nat e"
proof -
  from e b have "nat (max 0 (e + int (bitlen a) - 53) - e) = 0" by simp
  then have "round_double (int a) e = finish 1 a (nat e)"
    by (simp add: round_double_pos_cases [OF a])
  with finish_value [OF a f] show ?thesis by simp
qed

lemma round_double_rounded:
  assumes a: "0 < a" and s: "0 < s" and t: "int t = max 0 (e + int (bitlen a) - 53)"
    and te: "int t = e + int s"
  shows "\<exists>q. round_double (int a) e = finish 1 q t \<and> 2 * q * 2 ^ s \<le> 2 * a + 2 ^ s
    \<and> 2 * a \<le> 2 * q * 2 ^ s + 2 ^ s"
proof -
  from t te s have n: "nat (max 0 (e + int (bitlen a) - 53) - e) = s"
    "nat (max 0 (e + int (bitlen a) - 53)) = t"
    by linarith+
  from s have "round_double (int a) e = finish 1 (round_magnitude a s) t"
    by (simp add: round_double_pos_cases [OF a] n)
  with round_magnitude_error [OF s, of a] show ?thesis by blast
qed

subsection \<open>The square root\<close>

text \<open>
  A positive double of \<open>S\<close> units is written \<open>S * 2 ^ 1074 = M * 4 ^ t\<close> with
  \<open>2 ^ 104 \<le> M < 2 ^ 106\<close>. Its square root, as \<open>dsqrt\<close> computes it, is \<open>Q * 2 ^ t\<close>
  units, where \<open>Q\<close> is an integer nearest to the root of \<open>M\<close>: \<open>Q * Q < M + Q\<close> and
  \<open>M \<le> Q * Q + Q\<close>.
\<close>

lemma square_mono_int:
  fixes x y :: int
  assumes "0 \<le> x" "x \<le> y"
  shows "x * x \<le> y * y"
  using assms by (intro mult_mono) simp_all

lemma nearest_root:
  fixes r n Q h M :: int
  assumes r: "0 \<le> r" "r * r \<le> n" "n < (r + 1) * (r + 1)"
    and st: "st = (if r * r = n then 0 else 1)"
    and n: "n = M * (2 * h) * (2 * h)" and h: "0 < h" and Q: "0 < Q"
    and lo: "2 * (2 * h) * Q \<le> 2 * r + st + 2 * h"
    and hi: "2 * r + st \<le> 2 * (2 * h) * Q + 2 * h"
  shows "Q * Q < M + Q \<and> M \<le> Q * Q + Q"
proof -
  define w where "w = h * Q"
  have lo': "4 * w \<le> 2 * r + st + 2 * h" using lo by (simp add: w_def mult_ac)
  have hi': "2 * r + st \<le> 4 * w + 2 * h" using hi by (simp add: w_def mult_ac)
  have st01: "st = 0 \<or> st = 1" using st by auto
  have A: "2 * w - h \<le> r" using lo' st01 by presburger
  have wpos: "h \<le> w"
  proof -
    have "h * 1 \<le> h * Q" using h Q by (intro mult_left_mono) simp_all
    then show ?thesis by (simp add: w_def)
  qed
  have u0: "0 \<le> 2 * w - h" using wpos h by simp
  have "(2 * w - h) * (2 * w - h) \<le> r * r" using u0 A by (rule square_mono_int)
  with r(2) have L: "(2 * w - h) * (2 * w - h) \<le> n" by simp
  have U: "n \<le> (2 * w + h) * (2 * w + h)"
  proof (cases "r * r = n")
    case True
    with st have "st = 0" by simp
    with hi' have "r \<le> 2 * w + h" by simp
    with r(1) have "r * r \<le> (2 * w + h) * (2 * w + h)" by (rule square_mono_int)
    with True show ?thesis by simp
  next
    case False
    with st have "st = 1" by simp
    with hi' have le: "r + 1 \<le> 2 * w + h" by presburger
    have "0 \<le> r + 1" using r(1) by simp
    then have "(r + 1) * (r + 1) \<le> (2 * w + h) * (2 * w + h)" using le by (rule square_mono_int)
    with r(3) show ?thesis by simp
  qed
  have hh: "0 < h * h" using h by simp
  have e1: "(2 * w - h) * (2 * w - h) = (4 * (Q * Q) - 4 * Q + 1) * (h * h)"
    by (simp add: w_def algebra_simps)
  have e2: "(2 * w + h) * (2 * w + h) = (4 * (Q * Q) + 4 * Q + 1) * (h * h)"
    by (simp add: w_def algebra_simps)
  have e3: "n = (4 * M) * (h * h)" by (simp add: n algebra_simps)
  from L have "(4 * (Q * Q) - 4 * Q + 1) * (h * h) \<le> (4 * M) * (h * h)"
    by (simp only: e1 e3)
  then have 1: "4 * (Q * Q) - 4 * Q + 1 \<le> 4 * M"
    using hh by (simp add: mult_le_cancel_right)
  from U have "(4 * M) * (h * h) \<le> (4 * (Q * Q) + 4 * Q + 1) * (h * h)"
    by (simp only: e2 e3)
  then have 2: "4 * M \<le> 4 * (Q * Q) + 4 * Q + 1"
    using hh by (simp add: mult_le_cancel_right)
  from 1 2 show ?thesis by presburger
qed

lemma isqrt_upper:
  assumes "n < 2 ^ (2 * c)"
  shows "isqrt n < 2 ^ c"
proof (rule ccontr)
  assume "\<not> isqrt n < 2 ^ c"
  then have h: "2 ^ c \<le> isqrt n" by simp
  have "(2::nat) ^ (2 * c) = 2 ^ c * 2 ^ c" by (simp add: power_add mult_2)
  also have "\<dots> \<le> isqrt n * isqrt n" by (rule mult_le_mono [OF h h])
  finally show False using isqrt_bounds [of n] assms by linarith
qed

lemma root_rounded:
  fixes n :: nat and e :: int
  assumes sh: "sh = 4 \<or> sh = 5"
    and n1: "2 ^ (102 + 2 * sh) \<le> n" and n2: "n < 2 ^ (104 + 2 * sh)"
    and M: "n = M * 2 ^ (sh - 1) * 2 ^ (sh - 1)"
    and e: "0 \<le> e"
    and r: "r = isqrt n" and st: "st = (if r * r = n then 0 else 1)"
  shows "\<exists>Q. round_double (int (2 * r + st)) e = finish 1 Q (nat e + sh)
    \<and> 0 < Q \<and> Q * Q < M + Q \<and> M \<le> Q * Q + Q"
proof -
  define qq where "qq = 2 * r + st"
  define h where "h = (2::nat) ^ (sh - 2)"
  have h2: "(2::nat) ^ (sh - 1) = 2 * h" "(2::nat) ^ sh = 4 * h" "0 < h"
    using sh by (auto simp: h_def)
  have st01: "st = 0 \<or> st = 1" using st by auto
  have r1: "2 ^ (51 + sh) \<le> r"
    unfolding r using n1 isqrt_lower [of "51 + sh" n] by (simp add: algebra_simps)
  have r2: "r < 2 ^ (52 + sh)"
    unfolding r using n2 isqrt_upper [of n "52 + sh"] by (simp add: algebra_simps)
  have p52: "(2::nat) ^ (52 + sh) = 2 * 2 ^ (51 + sh)"
    using power_Suc [of "2::nat" "51 + sh"] by simp
  have q1: "2 ^ (52 + sh) \<le> qq" using r1 by (simp add: qq_def p52)
  have q2: "qq < 2 ^ Suc (52 + sh)"
  proof -
    from r2 st01 have "2 * r + st < 2 * 2 ^ (52 + sh)" by linarith
    then show ?thesis by (simp only: qq_def power_Suc)
  qed
  have bq: "bitlen qq = 53 + sh" using bitlen_unique [OF q1 q2] by simp
  have qpos: "0 < qq" using q1 by (metis less_le_trans zero_less_numeral zero_less_power)
  have shpos: "0 < sh" using sh by auto
  have t1: "int (nat e + sh) = max 0 (e + int (bitlen qq) - 53)" using e by (simp add: bq)
  have t2: "int (nat e + sh) = e + int sh" using e by simp
  from round_double_rounded [OF qpos shpos t1 t2] obtain Q
    where rd: "round_double (int qq) e = finish 1 Q (nat e + sh)"
      and lo: "2 * Q * 2 ^ sh \<le> 2 * qq + 2 ^ sh" and hi: "2 * qq \<le> 2 * Q * 2 ^ sh + 2 ^ sh"
    by blast
  have Qpos: "0 < Q"
  proof (rule ccontr)
    assume "\<not> 0 < Q"
    then have "Q = 0" by simp
    with hi have "2 * qq \<le> 2 ^ sh" by simp
    moreover have "(2::nat) ^ sh < 2 ^ (52 + sh)" by (rule power_strict_increasing) simp_all
    ultimately show False using q1 by linarith
  qed
  have lo': "2 * (2 * int h) * int Q \<le> 2 * int r + int st + 2 * int h"
  proof -
    define w where "w = h * Q"
    from lo have "8 * w \<le> 2 * (2 * r + st) + 4 * h"
      by (simp add: h2 qq_def w_def mult_ac)
    then have "4 * w \<le> 2 * r + st + 2 * h" by presburger
    then have "4 * (h * Q) \<le> 2 * r + st + 2 * h" by (simp only: w_def)
    then have "int (4 * (h * Q)) \<le> int (2 * r + st + 2 * h)" by (simp only: of_nat_le_iff)
    then show ?thesis by (simp add: mult_ac)
  qed
  have hi': "2 * int r + int st \<le> 2 * (2 * int h) * int Q + 2 * int h"
  proof -
    define w where "w = h * Q"
    from hi have "2 * (2 * r + st) \<le> 8 * w + 4 * h"
      by (simp add: h2 qq_def w_def mult_ac)
    then have "2 * r + st \<le> 4 * w + 2 * h" by presburger
    then have "2 * r + st \<le> 4 * (h * Q) + 2 * h" by (simp only: w_def)
    then have "int (2 * r + st) \<le> int (4 * (h * Q) + 2 * h)" by (simp only: of_nat_le_iff)
    then show ?thesis by (simp add: mult_ac)
  qed
  have rb: "int r * int r \<le> int n" "int n < (int r + 1) * (int r + 1)"
  proof -
    from isqrt_bounds [of n] have "r * r \<le> n" "n < (r + 1) * (r + 1)" by (simp_all add: r)
    then have "int (r * r) \<le> int n" "int n < int ((r + 1) * (r + 1))"
      by (simp_all only: of_nat_le_iff of_nat_less_iff)
    then show "int r * int r \<le> int n" "int n < (int r + 1) * (int r + 1)"
      by (simp_all add: algebra_simps)
  qed
  have sti: "int st = (if int r * int r = int n then 0 else 1)"
  proof -
    have "int r * int r = int n \<longleftrightarrow> r * r = n"
      by (metis of_nat_eq_iff of_nat_mult)
    then show ?thesis by (simp add: st)
  qed
  have ni: "int n = int M * (2 * int h) * (2 * int h)"
  proof -
    from M have "n = M * (2 * h) * (2 * h)" by (simp only: h2)
    then have "int n = int (M * (2 * h) * (2 * h))" by simp
    then show ?thesis by simp
  qed
  from nearest_root [OF _ rb sti ni _ _ lo' hi'] h2(3) Qpos
  have "int Q * int Q < int M + int Q \<and> int M \<le> int Q * int Q + int Q" by simp
  then have "Q * Q < M + Q \<and> M \<le> Q * Q + Q"
    by (metis of_nat_add of_nat_le_iff of_nat_less_iff of_nat_mult)
  with rd Qpos show ?thesis unfolding qq_def by blast
qed

lemma dsqrt_spec:
  assumes m: "0 < m" and b: "bitlen (nat m) \<le> 53" and f: "m * 2 ^ k < 2 ^ 2098"
  shows "\<exists>Q t M m' k'. dsqrt (Fin m k) = Fin m' k' \<and> m' * 2 ^ k' = int Q * 2 ^ t
     \<and> m * 2 ^ k * 2 ^ 1074 = int M * 4 ^ t
     \<and> 2 ^ 104 \<le> M \<and> M < 2 ^ 106 \<and> 2 ^ 52 dvd M \<and> (2 ^ 105 \<le> M \<longrightarrow> 2 ^ 53 dvd M)
     \<and> 0 < Q \<and> Q * Q < M + Q \<and> M \<le> Q * Q + Q"
proof -
  define a where "a = nat m"
  define bl where "bl = bitlen a"
  define p0 where "p0 = 112 - bl"
  define p where "p = (if even (int k - int p0) then p0 else Suc p0)"
  define n where "n = a * 2 ^ p"
  define r where "r = isqrt n"
  define st :: nat where "st = (if r * r = n then 0 else 1)"
  define e where "e = (int k - 1074 - int p) div 2 + 1073"
  define sh :: nat where "sh = (if p = p0 then 4 else 5)"
  define j where "j = p - (2 * sh - 2)"
  define M where "M = a * 2 ^ j"
  define t where "t = nat e + sh"
  from m have ms: "\<not> m < 0" "m \<noteq> 0" by simp_all
  have d: "dsqrt (Fin m k) = round_double (int (2 * r + st)) e"
    by (simp only: st_def e_def r_def n_def p_def p0_def bl_def a_def dsqrt.simps Let_def ms if_False)
  have apos: "0 < a" using m by (simp add: a_def)
  have am: "int a = m" using m by (simp add: a_def)
  have bl: "1 \<le> bl" "bl \<le> 53"
    using bitlen_pos [OF apos] b by (simp_all add: bl_def a_def)
  have shv: "sh = 4 \<or> sh = 5" by (simp add: sh_def)
  have psh: "bl + p = 108 + sh" using bl by (auto simp: p_def p0_def sh_def)
  have pj: "p = j + 2 * (sh - 1)" using psh bl shv by (auto simp: j_def)
  have ev: "even (int k - int p)" by (simp add: p_def)
  have bn: "bitlen n = 108 + sh" by (simp add: n_def bitlen_scaled [OF apos] psh flip: bl_def)
  have npos: "0 < n" using apos by (simp add: n_def)
  from bitlen_bounds [OF npos] have nb: "2 ^ (107 + sh) \<le> n" "n < 2 ^ (108 + sh)"
    by (simp_all add: bn)
  have n1: "2 ^ (102 + 2 * sh) \<le> n"
  proof -
    have "(2::nat) ^ (102 + 2 * sh) \<le> 2 ^ (107 + sh)"
      by (rule power_increasing) (use shv in auto)
    with nb(1) show ?thesis by linarith
  qed
  have n2: "n < 2 ^ (104 + 2 * sh)"
  proof -
    have "(2::nat) ^ (108 + sh) \<le> 2 ^ (104 + 2 * sh)"
      by (rule power_increasing) (use shv in auto)
    with nb(2) show ?thesis by linarith
  qed
  have nM: "n = M * 2 ^ (sh - 1) * 2 ^ (sh - 1)"
  proof -
    have "n = a * 2 ^ (j + (sh - 1) + (sh - 1))" using pj by (simp add: n_def mult_2)
    then show ?thesis by (simp only: power_add M_def mult.assoc)
  qed
  have e0: "0 \<le> e"
  proof -
    have "p \<le> 113" using bl by (auto simp: p_def p0_def)
    then show ?thesis unfolding e_def by linarith
  qed
  have e2: "2 * e = int k - int p + 1072"
    using ev unfolding e_def by presburger
  from root_rounded [OF shv n1 n2 nM e0 r_def st_def] obtain Q
    where rd: "round_double (int (2 * r + st)) e = finish 1 Q (nat e + sh)"
      and Q: "0 < Q" "Q * Q < M + Q" "M \<le> Q * Q + Q"
    by blast
  have bM: "bitlen M = 110 - sh"
    using psh pj shv bl by (auto simp: M_def bitlen_scaled [OF apos] simp flip: bl_def)
  have Mpos: "0 < M" using apos by (simp add: M_def)
  have Mb: "2 ^ 104 \<le> M" "M < 2 ^ 106" "2 ^ 105 \<le> M \<longrightarrow> sh = 4"
  proof -
    from bitlen_bounds [OF Mpos] have x: "2 ^ (109 - sh) \<le> M" "M < 2 ^ (110 - sh)"
      using shv by (auto simp: bM)
    from shv x show "2 ^ 104 \<le> M" "M < 2 ^ 106" "2 ^ 105 \<le> M \<longrightarrow> sh = 4"
      by auto
  qed
  have j52: "52 \<le> j" "sh = 4 \<longrightarrow> 53 \<le> j"
    using psh pj shv bl by auto
  have dv: "2 ^ 52 dvd M" "2 ^ 105 \<le> M \<longrightarrow> 2 ^ 53 dvd M"
  proof -
    have "(2::nat) ^ 52 dvd 2 ^ j" using j52(1) by (rule le_imp_power_dvd)
    then show "2 ^ 52 dvd M" by (simp add: M_def)
    show "2 ^ 105 \<le> M \<longrightarrow> 2 ^ 53 dvd M"
    proof
      assume "2 ^ 105 \<le> M"
      with Mb(3) j52(2) have "53 \<le> j" by simp
      then have "(2::nat) ^ 53 dvd 2 ^ j" by (rule le_imp_power_dvd)
      then show "2 ^ 53 dvd M" by (simp add: M_def)
    qed
  qed
  have ex: "j + 2 * t = k + 1074"
  proof -
    have "int j = int p - 2 * int sh + 2" using pj shv by auto
    moreover have "int t = e + int sh" using e0 by (simp add: t_def)
    ultimately have "int j + 2 * int t = int k + 1074" using e2 by linarith
    then show ?thesis by linarith
  qed
  have rel: "m * 2 ^ k * 2 ^ 1074 = int M * 4 ^ t"
  proof -
    have "int M * 4 ^ t = int a * (2 ^ j * 2 ^ (2 * t))"
      by (simp add: M_def power_mult)
    also have "\<dots> = int a * 2 ^ (k + 1074)" by (simp only: ex flip: power_add)
    also have "\<dots> = m * 2 ^ k * 2 ^ 1074" by (simp only: am power_add mult.assoc)
    finally show ?thesis by simp
  qed
  have Q53: "Q \<le> 2 ^ 53"
  proof (rule ccontr)
    assume "\<not> Q \<le> 2 ^ 53"
    then have q: "2 ^ 53 + 1 \<le> Q" by simp
    define X where "X = Q * Q"
    from q have "(2 ^ 53 + 1) * Q \<le> Q * Q" by (rule mult_le_mono1)
    then have a1: "9007199254740992 * Q + Q \<le> X" by (simp add: X_def algebra_simps)
    have a2: "(2::nat) ^ 106 \<le> 9007199254740992 * Q" using q by simp
    from Q(2) have "X < M + Q" by (simp add: X_def)
    with a1 a2 Mb(2) show False by linarith
  qed
  have t1533: "t \<le> 1533"
  proof (rule ccontr)
    assume "\<not> t \<le> 1533"
    then have "1534 \<le> t" by simp
    then have "(4::int) ^ 1534 \<le> 4 ^ t" by (rule power_increasing) simp
    moreover have "(2::int) ^ 104 \<le> int M" using Mb(1) by (metis of_nat_le_iff of_nat_numeral of_nat_power)
    ultimately have "(2::int) ^ 104 * 4 ^ 1534 \<le> int M * 4 ^ t"
      by (intro mult_mono) simp_all
    moreover have "(2::int) ^ 104 * 4 ^ 1534 = 2 ^ 2098 * 2 ^ 1074" by simp
    moreover have "m * 2 ^ k * 2 ^ 1074 < 2 ^ 2098 * 2 ^ 1074" using f by simp
    ultimately show False using rel by linarith
  qed
  have fin: "Q * 2 ^ t < 2 ^ 2098"
  proof -
    have "Q * 2 ^ t \<le> 2 ^ 53 * 2 ^ 1533"
      by (rule mult_le_mono [OF Q53]) (rule power_increasing [OF t1533], simp)
    also have "\<dots> < (2::nat) ^ 2098" by simp
    finally show ?thesis .
  qed
  from finish_value [OF Q(1) fin] obtain m' k'
    where "finish 1 Q t = Fin m' k'" "m' * 2 ^ k' = int Q * 2 ^ t" by blast
  with d rd have "dsqrt (Fin m k) = Fin m' k'" "m' * 2 ^ k' = int Q * 2 ^ t"
    by (simp_all add: t_def)
  with rel Mb(1,2) dv Q show ?thesis by blast
qed

subsection \<open>The square of the root\<close>

text \<open>
  The product of that root with itself, rounded, is a double of \<open>P\<close> units with
  \<open>\<bar>P - S\<bar> * 2 ^ 52 \<le> S\<close>.
\<close>

lemma multiple_small:
  fixes d G :: int
  assumes "0 < G" "G dvd d" "\<bar>d\<bar> < 2 * G"
  shows "\<bar>d\<bar> \<le> G"
proof -
  from assms(2) obtain z where z: "d = G * z" by (elim dvdE)
  have "\<bar>z\<bar> < 2"
  proof (rule ccontr)
    assume "\<not> \<bar>z\<bar> < 2"
    then have "2 \<le> \<bar>z\<bar>" by simp
    then have "G * 2 \<le> G * \<bar>z\<bar>" using assms(1) by (intro mult_left_mono) simp_all
    with assms(1,3) show False by (simp add: z abs_mult)
  qed
  then have "\<bar>z\<bar> \<le> 1" by simp
  then have "G * \<bar>z\<bar> \<le> G * 1" using assms(1) by (intro mult_left_mono) simp_all
  with assms(1) show ?thesis by (simp add: z abs_mult)
qed

lemma multiple_zero:
  fixes d G :: int
  assumes "0 < G" "G dvd d" "\<bar>d\<bar> < G"
  shows "d = 0"
proof (rule ccontr)
  assume "d \<noteq> 0"
  from zdvd_imp_le [of G "\<bar>d\<bar>"] assms(2) this have "G \<le> \<bar>d\<bar>" by simp
  with assms(3) show False by simp
qed

lemma root_range:
  fixes M Q :: int
  assumes M: "2 ^ 104 \<le> M" "M < 2 ^ 106" "2 ^ 105 \<le> M \<longrightarrow> 2 ^ 53 dvd M"
    and Q: "0 < Q" "Q * Q < M + Q" "M \<le> Q * Q + Q"
  shows "2 ^ 52 \<le> Q \<and> Q < 2 ^ 53"
proof
  show "2 ^ 52 \<le> Q"
  proof (rule ccontr)
    assume "\<not> 2 ^ 52 \<le> Q"
    then have q: "Q \<le> 2 ^ 52 - 1" by simp
    with Q(1) have "Q * Q \<le> (2 ^ 52 - 1) * (2 ^ 52 - 1)" by (intro mult_mono) simp_all
    with q M(1) Q(3) show False by simp
  qed
  show "Q < 2 ^ 53"
  proof (rule ccontr)
    assume "\<not> Q < 2 ^ 53"
    then have q: "2 ^ 53 \<le> Q" by simp
    then have "2 ^ 53 * (Q - 1) \<le> Q * (Q - 1)" by (intro mult_right_mono) simp_all
    moreover have "(2::int) ^ 53 * (2 ^ 53 - 1) \<le> 2 ^ 53 * (Q - 1)"
      using q by (intro mult_left_mono) simp_all
    ultimately have x: "2 ^ 106 - 2 ^ 53 \<le> Q * Q - Q" by (simp add: algebra_simps)
    with Q(2) have m: "2 ^ 106 - 2 ^ 53 < M" by simp
    then have "2 ^ 105 \<le> M" by simp
    with M(3) have "2 ^ 53 dvd M" by simp
    then have "2 ^ 53 dvd (2 ^ 106 - M)" by (simp add: dvd_diff)
    moreover have "\<bar>2 ^ 106 - M\<bar> < 2 ^ 53" using m M(2) by simp
    ultimately have "2 ^ 106 - M = 0" by (intro multiple_zero [of "2 ^ 53"]) simp_all
    with M(2) show False by simp
  qed
qed

lemma root_below:
  fixes Q :: int
  assumes "0 < Q" "Q * Q < 2 ^ 105 + 2 ^ 53"
  shows "Q < 3 * 2 ^ 51"
proof (rule ccontr)
  assume "\<not> Q < 3 * 2 ^ 51"
  then have "3 * 2 ^ 51 \<le> Q" by simp
  then have "(3 * 2 ^ 51) * (3 * 2 ^ 51) \<le> Q * Q" by (intro mult_mono) simp_all
  with assms(2) show False by simp
qed

lemma product_of_roots_close:
  fixes M Q PM :: int and g :: nat
  assumes M: "2 ^ 104 \<le> M" "M < 2 ^ 106" "2 ^ 52 dvd M" "2 ^ 105 \<le> M \<longrightarrow> 2 ^ 53 dvd M"
    and Q: "0 < Q" "Q * Q < M + Q" "M \<le> Q * Q + Q"
    and P: "2 ^ g dvd PM" "2 * \<bar>PM - Q * Q\<bar> \<le> 2 ^ g"
    and regime: "(Q * Q < 2 ^ 105 \<and> g = 52) \<or> (2 ^ 105 \<le> Q * Q \<and> g = 53) \<or> (53 < g \<and> 2 ^ g dvd M)"
  shows "\<bar>PM - M\<bar> * 2 ^ 52 \<le> M \<and> 0 < PM \<and> PM < 2 ^ 106"
proof -
  define X where "X = Q * Q"
  from root_range [OF M(1,2,4) Q] have Qr: "2 ^ 52 \<le> Q" "Q < 2 ^ 53" by simp_all
  have XM: "X - M < Q" "M - X \<le> Q" using Q(2,3) by (simp_all add: X_def)
  have PX: "2 * \<bar>PM - X\<bar> \<le> 2 ^ g" using P(2) by (simp add: X_def)
  have Xhi: "X \<le> 2 ^ 106 - 2 ^ 54 + 1"
  proof -
    from Qr have "Q \<le> 2 ^ 53 - 1" by simp
    with Q(1) have "Q * Q \<le> (2 ^ 53 - 1) * (2 ^ 53 - 1)" by (intro mult_mono) simp_all
    then show ?thesis by (simp add: X_def)
  qed
  from regime consider
    (a) "X < 2 ^ 105" "g = 52" | (b) "2 ^ 105 \<le> X" "g = 53" | (c) "53 < g" "2 ^ g dvd M"
    by (auto simp: X_def)
  then have main: "\<bar>PM - M\<bar> * 2 ^ 52 \<le> M \<and> PM < 2 ^ 106"
  proof cases
    case a
    from a(1) Q(1) have "Q < 3 * 2 ^ 51" by (intro root_below) (simp_all add: X_def)
    with XM have d1: "\<bar>X - M\<bar> < 3 * 2 ^ 51" by simp
    from PX a(2) have d2: "\<bar>PM - X\<bar> \<le> 2 ^ 51" by simp
    from d1 d2 have "\<bar>PM - M\<bar> < 2 * 2 ^ 52" by simp
    moreover have "2 ^ 52 dvd (PM - M)" using P(1) M(3) a(2) by (simp add: dvd_diff)
    ultimately have "\<bar>PM - M\<bar> \<le> 2 ^ 52" by (intro multiple_small) simp_all
    then have "\<bar>PM - M\<bar> * 2 ^ 52 \<le> 2 ^ 52 * 2 ^ 52" by (intro mult_right_mono) simp_all
    with M(1) have "\<bar>PM - M\<bar> * 2 ^ 52 \<le> M" by simp
    moreover have "PM < 2 ^ 106" using d2 a(1) by simp
    ultimately show ?thesis by simp
  next
    case b
    from PX b(2) have d2: "\<bar>PM - X\<bar> \<le> 2 ^ 52" by simp
    have P106: "PM < 2 ^ 106" using d2 Xhi by simp
    show ?thesis
    proof (cases "2 ^ 105 \<le> M")
      case True
      with M(4) have "2 ^ 53 dvd M" by simp
      then have "2 ^ 53 dvd (PM - M)" using P(1) b(2) by (simp add: dvd_diff)
      moreover have "\<bar>PM - M\<bar> < 2 * 2 ^ 53" using d2 XM Qr by simp
      ultimately have "\<bar>PM - M\<bar> \<le> 2 ^ 53" by (intro multiple_small) simp_all
      then have "\<bar>PM - M\<bar> * 2 ^ 52 \<le> 2 ^ 53 * 2 ^ 52" by (intro mult_right_mono) simp_all
      with True have "\<bar>PM - M\<bar> * 2 ^ 52 \<le> M" by simp
      with P106 show ?thesis by simp
    next
      case False
      then have Mlt: "M < 2 ^ 105" by simp
      from XM(1) Mlt Qr have "X < 2 ^ 105 + 2 ^ 53" by simp
      with Q(1) have Q3: "Q < 3 * 2 ^ 51" by (intro root_below) (simp_all add: X_def)
      have "2 ^ 52 dvd (2 ^ 105 - M)" using M(3) by (simp add: dvd_diff)
      moreover have "\<bar>2 ^ 105 - M\<bar> < 2 * 2 ^ 52" using Mlt XM(1) b(1) Q3 by simp
      ultimately have "\<bar>2 ^ 105 - M\<bar> \<le> 2 ^ 52" by (intro multiple_small) simp_all
      with Mlt have Mlo: "2 ^ 105 - 2 ^ 52 \<le> M" by simp
      have "2 ^ 52 \<le> 2 ^ 105 - M"
        using zdvd_imp_le [of "2 ^ 52" "2 ^ 105 - M"] M(3) Mlt by (simp add: dvd_diff)
      then have Mhi: "M \<le> 2 ^ 105 - 2 ^ 52" by simp
      have "2 ^ 53 dvd (PM - 2 ^ 105)" using P(1) b(2) by (simp add: dvd_diff)
      moreover have "\<bar>PM - 2 ^ 105\<bar> < 2 ^ 53" using d2 b(1) XM(1) Mhi Q3 by simp
      ultimately have "PM - 2 ^ 105 = 0" by (intro multiple_zero [of "2 ^ 53"]) simp_all
      then have "PM = 2 ^ 105" by simp
      with Mlo Mlt have "\<bar>PM - M\<bar> \<le> 2 ^ 52" by simp
      then have "\<bar>PM - M\<bar> * 2 ^ 52 \<le> 2 ^ 52 * 2 ^ 52" by (intro mult_right_mono) simp_all
      with M(1) have "\<bar>PM - M\<bar> * 2 ^ 52 \<le> M" by simp
      with P106 show ?thesis by simp
    qed
  next
    case c
    from c(1) have "54 \<le> g" by simp
    define G where "G = (2::int) ^ g"
    from \<open>54 \<le> g\<close> have "(2::int) ^ 54 \<le> 2 ^ g" by (rule power_increasing) simp
    then have "2 ^ 54 \<le> G" by (simp only: G_def)
    moreover from XM have "\<bar>X - M\<bar> \<le> Q" by simp
    ultimately have d1: "2 * \<bar>X - M\<bar> < G" using Qr by simp
    from PX have "2 * \<bar>PM - X\<bar> \<le> G" by (simp only: G_def)
    with d1 have "\<bar>PM - M\<bar> < G" by (simp add: abs_if split: if_splits)
    then have "\<bar>PM - M\<bar> < 2 ^ g" by (simp only: G_def)
    moreover have "2 ^ g dvd (PM - M)" using P(1) c(2) by (simp add: dvd_diff)
    ultimately have "PM - M = 0" by (intro multiple_zero [of "2 ^ g"]) simp_all
    with M(1,2) show ?thesis by simp
  qed
  have "0 < PM"
  proof (rule ccontr)
    assume "\<not> 0 < PM"
    then have "M \<le> \<bar>PM - M\<bar>" using M(1) by simp
    then have "M * 2 ^ 52 \<le> \<bar>PM - M\<bar> * 2 ^ 52" by (intro mult_right_mono) simp_all
    with main have "M * 2 ^ 52 \<le> M" by simp
    with M(1) show False by simp
  qed
  with main show ?thesis by simp
qed

lemma scale_close_general:
  fixes P S PM M c d w :: int
  assumes c: "0 < c" and d: "0 \<le> d" and w: "0 \<le> w"
    and P: "P * c = PM * d" and S: "S * c = M * d" and h: "\<bar>PM - M\<bar> * w \<le> M"
  shows "\<bar>P - S\<bar> * w \<le> S"
proof -
  have "\<bar>P - S\<bar> * c = \<bar>(P - S) * c\<bar>" using c by (simp add: abs_mult)
  also have "(P - S) * c = (PM - M) * d" by (simp only: left_diff_distrib P S)
  also have "\<bar>(PM - M) * d\<bar> = \<bar>PM - M\<bar> * d" using d by (simp add: abs_mult)
  finally have e: "\<bar>P - S\<bar> * c = \<bar>PM - M\<bar> * d" .
  have "(\<bar>P - S\<bar> * w) * c = (\<bar>P - S\<bar> * c) * w" by (simp only: mult_ac)
  also have "\<dots> = (\<bar>PM - M\<bar> * d) * w" by (simp only: e)
  also have "\<dots> = (\<bar>PM - M\<bar> * w) * d" by (simp only: mult_ac)
  also have "\<dots> \<le> M * d" using h d by (rule mult_right_mono)
  also have "\<dots> = S * c" by (simp only: S)
  finally have "(\<bar>P - S\<bar> * w) * c \<le> S * c" .
  with c show ?thesis by (simp add: mult_le_cancel_right)
qed

lemma scale_close:
  fixes P S PM M :: int
  assumes "P * 2 ^ 1074 = PM * 4 ^ t" "S * 2 ^ 1074 = M * 4 ^ t" "\<bar>PM - M\<bar> * 2 ^ 52 \<le> M"
  shows "\<bar>P - S\<bar> * 2 ^ 52 \<le> S"
  by (rule scale_close_general [OF _ _ _ assms]) simp_all

lemma scale_finite:
  fixes P S PM M :: int
  assumes "P * 2 ^ 1074 = PM * 4 ^ t" "S * 2 ^ 1074 = M * 4 ^ t" "PM < 2 ^ 106" "2 ^ 104 \<le> M"
    "S < 2 ^ 2098"
  shows "P < 2 ^ 2098"
proof -
  have t: "t \<le> 1533"
  proof (rule ccontr)
    assume "\<not> t \<le> 1533"
    then have "1534 \<le> t" by simp
    then have "(4::int) ^ 1534 \<le> 4 ^ t" by (rule power_increasing) simp
    with assms(4) have "(2::int) ^ 104 * 4 ^ 1534 \<le> M * 4 ^ t"
      by (intro mult_mono) simp_all
    moreover have "(2::int) ^ 104 * 4 ^ 1534 = 2 ^ 2098 * 2 ^ 1074" by simp
    moreover have "S * 2 ^ 1074 < 2 ^ 2098 * 2 ^ 1074" using assms(5) by simp
    ultimately show False using assms(2) by linarith
  qed
  then have "(4::int) ^ t \<le> 4 ^ 1533" by (rule power_increasing) simp
  moreover have "PM * 4 ^ t < 2 ^ 106 * 4 ^ t" using assms(3) by simp
  moreover have "(2::int) ^ 106 * 4 ^ t \<le> 2 ^ 106 * 4 ^ 1533"
    using \<open>(4::int) ^ t \<le> 4 ^ 1533\<close> by (intro mult_left_mono) simp_all
  moreover have "(2::int) ^ 106 * 4 ^ 1533 = 2 ^ 2098 * 2 ^ 1074" by simp
  ultimately have "P * 2 ^ 1074 < 2 ^ 2098 * 2 ^ 1074" using assms(1) by linarith
  then show ?thesis by simp
qed

lemma dmul_root_spec:
  fixes S :: int
  assumes m1: "odd m1" "m1 * 2 ^ k1 = int Q * 2 ^ t"
    and S: "S < 2 ^ 2098" "S * 2 ^ 1074 = int M * 4 ^ t"
    and M: "2 ^ 104 \<le> M" "M < 2 ^ 106" "2 ^ 52 dvd M" "2 ^ 105 \<le> M \<longrightarrow> 2 ^ 53 dvd M"
    and Q: "0 < Q" "Q * Q < M + Q" "M \<le> Q * Q + Q"
  shows "\<exists>m2 k2. dmul (Fin m1 k1) (Fin m1 k1) = Fin m2 k2 \<and> 0 < m2
     \<and> \<bar>m2 * 2 ^ k2 - S\<bar> * 2 ^ 52 \<le> S"
proof -
  have m1pos: "0 < m1"
  proof -
    have "0 < int Q * 2 ^ t" using Q(1) by simp
    then have "0 < m1 * 2 ^ k1" by (simp only: m1(2))
    then show ?thesis by (simp add: zero_less_mult_iff)
  qed
  have kt: "t \<le> k1"
  proof (rule ccontr)
    assume "\<not> t \<le> k1"
    then have "k1 < t" by simp
    then obtain d where d: "t = k1 + Suc d" by (auto dest: less_imp_Suc_add)
    have "m1 * 2 ^ k1 = (int Q * 2 ^ Suc d) * 2 ^ k1"
      by (simp only: m1(2) d power_add mult_ac)
    then have "m1 = int Q * 2 ^ Suc d" by simp
    then have "even m1" by simp
    with m1(1) show False by simp
  qed
  define j where "j = k1 - t"
  have k1: "k1 = t + j" using kt by (simp add: j_def)
  have Qm: "int Q = m1 * 2 ^ j"
  proof -
    have "(m1 * 2 ^ j) * 2 ^ t = int Q * 2 ^ t"
      by (simp only: m1(2) [symmetric] k1 power_add mult_ac)
    then show ?thesis by simp
  qed
  define a1 where "a1 = nat (m1 * m1)"
  have a1: "0 < a1" "int a1 = m1 * m1" using m1pos by (simp_all add: a1_def)
  define e where "e = 2 * int k1 - 1074"
  have dm: "dmul (Fin m1 k1) (Fin m1 k1) = round_double (int a1) e"
    by (simp add: a1 e_def)
  have XQ: "int Q * int Q = int a1 * 2 ^ (2 * j)"
  proof -
    have "int Q * int Q = (m1 * m1) * (2 ^ j * 2 ^ j)" by (simp only: Qm mult_ac)
    also have "(2::int) ^ j * 2 ^ j = 2 ^ (2 * j)" by (simp only: mult_2 power_add)
    finally show ?thesis by (simp only: a1)
  qed
  then have "int (Q * Q) = int (a1 * 2 ^ (2 * j))" by simp
  then have XQn: "Q * Q = a1 * 2 ^ (2 * j)" by (simp only: of_nat_eq_iff)
  have bX: "bitlen (Q * Q) = bitlen a1 + 2 * j"
    by (simp only: XQn bitlen_scaled [OF a1(1)])
  have Mi: "(2::int) ^ 104 \<le> int M" "int M < 2 ^ 106" "(2::int) ^ 52 dvd int M"
    "(2::int) ^ 105 \<le> int M \<longrightarrow> 2 ^ 53 dvd int M"
  proof -
    from M(1) have "int (2 ^ 104) \<le> int M" by (simp only: of_nat_le_iff)
    then show "(2::int) ^ 104 \<le> int M" by simp
    from M(2) have "int M < int (2 ^ 106)" by (simp only: of_nat_less_iff)
    then show "int M < 2 ^ 106" by simp
    from M(3) have "int (2 ^ 52) dvd int M" by (simp only: of_nat_dvd_iff)
    then show "(2::int) ^ 52 dvd int M" by simp
    show "(2::int) ^ 105 \<le> int M \<longrightarrow> 2 ^ 53 dvd int M"
    proof
      assume "(2::int) ^ 105 \<le> int M"
      then have "int (2 ^ 105) \<le> int M" by simp
      then have "2 ^ 105 \<le> M" by (simp only: of_nat_le_iff)
      with M(4) have "2 ^ 53 dvd M" by simp
      then have "int (2 ^ 53) dvd int M" by (simp only: of_nat_dvd_iff)
      then show "(2::int) ^ 53 dvd int M" by simp
    qed
  qed
  have Qi: "0 < int Q" "int Q * int Q < int M + int Q" "int M \<le> int Q * int Q + int Q"
  proof -
    show "0 < int Q" using Q(1) by simp
    from Q(2) have "int (Q * Q) < int (M + Q)" by (simp only: of_nat_less_iff)
    then show "int Q * int Q < int M + int Q" by simp
    from Q(3) have "int M \<le> int (Q * Q + Q)" by (simp only: of_nat_le_iff)
    then show "int M \<le> int Q * int Q + int Q" by simp
  qed
  from root_range [OF Mi(1,2,4) Qi] have Qr: "2 ^ 52 \<le> int Q" "int Q < 2 ^ 53" by simp_all
  have Xr: "2 ^ 104 \<le> Q * Q" "Q * Q < 2 ^ 106"
  proof -
    from Qr have "int (2 ^ 52) \<le> int Q" "int Q < int (2 ^ 53)" by simp_all
    then have q: "2 ^ 52 \<le> Q" "Q < 2 ^ 53" by (simp_all only: of_nat_le_iff of_nat_less_iff)
    have "(2::nat) ^ 52 * 2 ^ 52 \<le> Q * Q" by (rule mult_le_mono [OF q(1) q(1)])
    then show "2 ^ 104 \<le> Q * Q" by simp
    have "Q * Q < 2 ^ 53 * 2 ^ 53" by (rule mult_strict_mono [OF q(2) q(2)]) simp_all
    then show "Q * Q < 2 ^ 106" by simp
  qed
  have bXv: "(Q * Q < 2 ^ 105 \<and> bitlen (Q * Q) = 105) \<or> (2 ^ 105 \<le> Q * Q \<and> bitlen (Q * Q) = 106)"
  proof (cases "Q * Q < 2 ^ 105")
    case True
    with Xr(1) bitlen_unique [of 104 "Q * Q"] show ?thesis by simp
  next
    case False
    with Xr(2) bitlen_unique [of 105 "Q * Q"] show ?thesis by simp
  qed
  define b' where "b' = bitlen a1"
  define \<tau> where "\<tau> = max 0 (e + int b' - 53)"
  define s where "s = nat (\<tau> - e)"
  have normal_regime: "(int Q * int Q < 2 ^ 105 \<and> g = 52) \<or> (2 ^ 105 \<le> int Q * int Q \<and> g = 53)"
    if "g + 53 = b' + 2 * j" for g
  proof -
    from that bX have g: "g + 53 = bitlen (Q * Q)" by (simp add: b'_def)
    from bXv show ?thesis
    proof
      assume h: "Q * Q < 2 ^ 105 \<and> bitlen (Q * Q) = 105"
      then have "int (Q * Q) < int (2 ^ 105)" by (simp only: of_nat_less_iff)
      with h g show ?thesis by simp
    next
      assume h: "2 ^ 105 \<le> Q * Q \<and> bitlen (Q * Q) = 106"
      then have "int (2 ^ 105) \<le> int (Q * Q)" by (simp only: of_nat_le_iff)
      with h g show ?thesis by simp
    qed
  qed
  have finish_close: "\<exists>m2 k2. finish 1 q \<tau>n = Fin m2 k2 \<and> 0 < m2
      \<and> \<bar>m2 * 2 ^ k2 - S\<bar> * 2 ^ 52 \<le> S"
    if pm: "int q * 2 ^ \<tau>n * 2 ^ 1074 = PM * 4 ^ t"
      and cl: "\<bar>PM - int M\<bar> * 2 ^ 52 \<le> int M \<and> 0 < PM \<and> PM < 2 ^ 106" for q \<tau>n PM
  proof -
    from cl have c: "\<bar>PM - int M\<bar> * 2 ^ 52 \<le> int M" "0 < PM" "PM < 2 ^ 106" by simp_all
    have "0 < PM * 4 ^ t" using c(2) by simp
    then have "0 < int q * 2 ^ \<tau>n * 2 ^ 1074" by (simp only: pm)
    then have qpos: "0 < q" by (simp add: zero_less_mult_iff)
    from scale_finite [OF pm S(2) c(3) Mi(1) S(1)] have "int q * 2 ^ \<tau>n < 2 ^ 2098" .
    then have "int (q * 2 ^ \<tau>n) < int (2 ^ 2098)" by simp
    then have fin: "q * 2 ^ \<tau>n < 2 ^ 2098" by (simp only: of_nat_less_iff)
    from finish_value [OF qpos fin] obtain m2 k2
      where f: "finish 1 q \<tau>n = Fin m2 k2" and v: "m2 * 2 ^ k2 = int q * 2 ^ \<tau>n" by blast
    have "0 < m2 * 2 ^ k2" using qpos by (simp add: v)
    then have mpos: "0 < m2" by (simp add: zero_less_mult_iff)
    have "\<bar>m2 * 2 ^ k2 - S\<bar> * 2 ^ 52 \<le> S"
      unfolding v using pm S(2) c(1) by (rule scale_close)
    with f mpos show ?thesis by blast
  qed
  show ?thesis
  proof (cases "s = 0")
    case True
    then have te: "\<tau> \<le> e" by (simp add: s_def)
    then have e0: "0 \<le> e" and b53: "b' \<le> 53" by (simp_all add: \<tau>_def)
    from Xr(1) bXv have "105 \<le> bitlen (Q * Q)" by auto
    then have "53 \<le> b' + 2 * j" using bX by (simp add: b'_def)
    then obtain g where g: "g + 53 = b' + 2 * j" by (auto simp: le_iff_add add.commute)
    have gj: "g \<le> 2 * j" using g b53 by simp
    have d1: "2 ^ g dvd int Q * int Q"
    proof -
      have "(2::int) ^ g dvd 2 ^ (2 * j)" using gj by (rule le_imp_power_dvd)
      then show ?thesis by (simp add: XQ)
    qed
    have d2: "2 * \<bar>int Q * int Q - int Q * int Q\<bar> \<le> (2::int) ^ g" by simp
    from normal_regime [OF g]
    have reg: "(int Q * int Q < 2 ^ 105 \<and> g = 52) \<or> (2 ^ 105 \<le> int Q * int Q \<and> g = 53)
        \<or> (53 < g \<and> 2 ^ g dvd int M)"
      by blast
    note cl = product_of_roots_close [OF Mi Qi d1 d2 reg]
    have ne: "nat e + 1074 = 2 * j + 2 * t" using e0 k1 by (simp add: e_def)
    have pm: "int a1 * 2 ^ nat e * 2 ^ 1074 = (int Q * int Q) * 4 ^ t"
    proof -
      have "int a1 * 2 ^ nat e * 2 ^ 1074 = int a1 * 2 ^ (nat e + 1074)"
        by (simp only: power_add mult.assoc)
      also have "\<dots> = int a1 * 2 ^ (2 * j) * 2 ^ (2 * t)"
        by (simp only: ne power_add mult.assoc)
      also have "\<dots> = (int Q * int Q) * 4 ^ t" by (simp add: XQ power_mult)
      finally show ?thesis .
    qed
    from True e0 have "round_double (int a1) e = finish 1 a1 (nat e)"
      using round_double_pos_cases [OF a1(1), of e] by (simp add: s_def \<tau>_def b'_def)
    with finish_close [OF pm cl] dm show ?thesis by simp
  next
    case False
    then have spos: "0 < s" by simp
    define \<tau>n where "\<tau>n = nat \<tau>"
    have t1: "int \<tau>n = max 0 (e + int (bitlen a1) - 53)" by (simp add: \<tau>n_def \<tau>_def b'_def)
    have t2: "int \<tau>n = e + int s" using spos by (simp add: \<tau>n_def s_def \<tau>_def)
    from round_double_rounded [OF a1(1) spos t1 t2] obtain q
      where rd: "round_double (int a1) e = finish 1 q \<tau>n"
        and lo: "2 * q * 2 ^ s \<le> 2 * a1 + 2 ^ s" and hi: "2 * a1 \<le> 2 * q * 2 ^ s + 2 ^ s"
      by blast
    define g where "g = s + 2 * j"
    define PM where "PM = int q * 2 ^ g"
    have d1: "2 ^ g dvd PM" by (simp add: PM_def)
    have d2: "2 * \<bar>PM - int Q * int Q\<bar> \<le> 2 ^ g"
    proof -
      from lo have "int (2 * q * 2 ^ s) \<le> int (2 * a1 + 2 ^ s)" by (simp only: of_nat_le_iff)
      then have l: "2 * (int q * 2 ^ s) \<le> 2 * int a1 + 2 ^ s" by simp
      from hi have "int (2 * a1) \<le> int (2 * q * 2 ^ s + 2 ^ s)" by (simp only: of_nat_le_iff)
      then have h: "2 * int a1 \<le> 2 * (int q * 2 ^ s) + 2 ^ s" by simp
      from l h have "2 * \<bar>int q * 2 ^ s - int a1\<bar> \<le> 2 ^ s"
        by (simp add: abs_if split: if_splits)
      then have "(2 * \<bar>int q * 2 ^ s - int a1\<bar>) * 2 ^ (2 * j) \<le> 2 ^ s * 2 ^ (2 * j)"
        by (intro mult_right_mono) simp_all
      moreover have "PM - int Q * int Q = (int q * 2 ^ s - int a1) * 2 ^ (2 * j)"
        by (simp add: PM_def g_def XQ power_add left_diff_distrib)
      ultimately show ?thesis by (simp add: abs_mult g_def power_add)
    qed
    have reg: "(int Q * int Q < 2 ^ 105 \<and> g = 52) \<or> (2 ^ 105 \<le> int Q * int Q \<and> g = 53)
        \<or> (53 < g \<and> 2 ^ g dvd int M)"
    proof (cases "0 \<le> e + int b' - 53")
      case True
      then have "\<tau> = e + int b' - 53" by (simp add: \<tau>_def)
      then have "int s = int b' - 53" using spos by (simp add: s_def)
      then have "g + 53 = b' + 2 * j" by (simp add: g_def)
      from normal_regime [OF this] show ?thesis by blast
    next
      case f: False
      then have "\<tau> = 0" by (simp add: \<tau>_def)
      then have si: "int s = - e" using spos by (simp add: s_def)
      then have g2: "g + 2 * t = 1074" using k1 by (simp add: g_def e_def)
      from f si have "int b' + 2 * int j < int g + 53" by (simp add: g_def)
      then have "bitlen (Q * Q) < g + 53" using bX by (simp add: b'_def)
      moreover from Xr(1) bXv have "105 \<le> bitlen (Q * Q)" by auto
      ultimately have "52 < g" by simp
      moreover have "even g" using g2 by presburger
      ultimately have g53: "53 < g" by presburger
      have "int M * 4 ^ t = (S * 2 ^ g) * 4 ^ t"
      proof -
        have "(S * 2 ^ g) * 4 ^ t = S * 2 ^ (g + 2 * t)" by (simp add: power_add power_mult)
        then show ?thesis by (simp only: g2 S(2))
      qed
      then have "int M = S * 2 ^ g" by simp
      then have "2 ^ g dvd int M" by simp
      with g53 show ?thesis by blast
    qed
    note cl = product_of_roots_close [OF Mi Qi d1 d2 reg]
    have ne: "\<tau>n + 1074 = g + 2 * t"
    proof -
      have "int \<tau>n + 1074 = int g + 2 * int t" using t2 k1 by (simp add: g_def e_def)
      then show ?thesis by linarith
    qed
    have pm: "int q * 2 ^ \<tau>n * 2 ^ 1074 = PM * 4 ^ t"
    proof -
      have "int q * 2 ^ \<tau>n * 2 ^ 1074 = int q * 2 ^ (\<tau>n + 1074)"
        by (simp only: power_add mult.assoc)
      also have "\<dots> = int q * 2 ^ g * 2 ^ (2 * t)"
        by (simp only: ne power_add mult.assoc)
      also have "\<dots> = PM * 4 ^ t" by (simp add: PM_def power_mult)
      finally show ?thesis .
    qed
    from finish_close [OF pm cl] dm rd show ?thesis by simp
  qed
qed

subsection \<open>The quotient\<close>

text \<open>
  The quotient of a double of \<open>S\<close> units by one of \<open>P\<close> units with
  \<open>\<bar>P - S\<bar> * 2 ^ 52 \<le> S\<close>, rounded, lies between \<open>1 - 2 ^ (-52)\<close> and
  \<open>1 + 2 ^ (-52)\<close>, which are \<open>2 ^ 1074 - 2 ^ 1022\<close> and \<open>2 ^ 1074 + 2 ^ 1022\<close> units.
\<close>

lemma quotient_above:
  fixes S b q E H :: int
  assumes b: "0 < b" and H: "0 \<le> H" "H + 1 < 2 ^ 52" and E: "E = 2 ^ 52 * H"
    and ge: "b * E \<le> S" and close: "(S - b * E) * 2 ^ 52 \<le> S"
    and q: "q * b \<le> S" "S < (q + 1) * b"
  shows "E \<le> q \<and> q \<le> E + H"
proof
  show "E \<le> q"
  proof (rule ccontr)
    assume "\<not> E \<le> q"
    then have "q + 1 \<le> E" by simp
    then have "(q + 1) * b \<le> E * b" using b by (intro mult_right_mono) simp_all
    with q(2) ge show False by (simp add: mult.commute)
  qed
  show "q \<le> E + H"
  proof (rule ccontr)
    assume "\<not> q \<le> E + H"
    then have "E + H + 1 \<le> q" by simp
    then have "(E + H + 1) * b \<le> q * b" using b by (intro mult_right_mono) simp_all
    with q(1) have 1: "(E + H + 1) * b \<le> S" by simp
    define u where "u = b * H"
    have 2: "(E + H + 1) * b = 2 ^ 52 * u + u + b" by (simp add: E u_def algebra_simps)
    have 3: "b * E = 2 ^ 52 * u" by (simp add: E u_def algebra_simps)
    have "b * H \<le> b * (2 ^ 52 - 2)" using b H(2) by (intro mult_left_mono) simp_all
    then have 4: "u \<le> b * (2 ^ 52 - 2)" by (simp only: u_def)
    from close have 5: "(S - 2 ^ 52 * u) * 2 ^ 52 \<le> S" by (simp only: 3)
    from 1 have 6: "2 ^ 52 * u + u + b \<le> S" by (simp only: 2)
    from 4 5 6 b show False by simp
  qed
qed

lemma quotient_above_rounded:
  fixes q Qc E H st :: int
  assumes H: "1 < H" and E: "E = 2 ^ 52 * H" and q: "E \<le> q" "q \<le> E + H"
    and st: "st = 0 \<or> st = 1"
    and lo: "2 * Qc * H \<le> 2 * q + st + H" and hi: "2 * q + st \<le> 2 * Qc * H + H"
  shows "2 ^ 52 \<le> Qc \<and> Qc \<le> 2 ^ 52 + 1"
proof
  define v where "v = Qc * H"
  have lo': "2 * v \<le> 2 * q + st + H" using lo by (simp add: v_def)
  have hi': "2 * q + st \<le> 2 * v + H" using hi by (simp add: v_def)
  show "2 ^ 52 \<le> Qc"
  proof (rule ccontr)
    assume "\<not> 2 ^ 52 \<le> Qc"
    then have "Qc \<le> 2 ^ 52 - 1" by simp
    then have "Qc * H \<le> (2 ^ 52 - 1) * H" using H by (intro mult_right_mono) simp_all
    then have "v \<le> 2 ^ 52 * H - H" by (simp add: v_def algebra_simps)
    with hi' q(1) st H show False by (auto simp: E)
  qed
  show "Qc \<le> 2 ^ 52 + 1"
  proof (rule ccontr)
    assume "\<not> Qc \<le> 2 ^ 52 + 1"
    then have "2 ^ 52 + 2 \<le> Qc" by simp
    then have "(2 ^ 52 + 2) * H \<le> Qc * H" using H by (intro mult_right_mono) simp_all
    then have "2 ^ 52 * H + 2 * H \<le> v" by (simp add: v_def algebra_simps)
    with lo' q(2) st H show False by (auto simp: E)
  qed
qed

lemma quotient_below:
  fixes S b q E H :: int
  assumes b: "0 < b" and H: "0 < H" and E: "E = 2 ^ 53 * H"
    and lt: "S < b * E" and close: "(b * E - S) * 2 ^ 52 \<le> S"
    and q: "q * b \<le> S" "S < (q + 1) * b"
  shows "E - 2 * H \<le> q \<and> q < E"
proof
  show "q < E"
  proof (rule ccontr)
    assume "\<not> q < E"
    then have "E \<le> q" by simp
    then have "E * b \<le> q * b" using b by (intro mult_right_mono) simp_all
    with q(1) lt show False by (simp add: mult.commute)
  qed
  show "E - 2 * H \<le> q"
  proof (rule ccontr)
    assume "\<not> E - 2 * H \<le> q"
    then have "q + 1 \<le> E - 2 * H" by simp
    then have "(q + 1) * b \<le> (E - 2 * H) * b" using b by (intro mult_right_mono) simp_all
    with q(2) have 1: "S < (E - 2 * H) * b" by simp
    define u where "u = b * H"
    have upos: "0 < u" using b H by (simp add: u_def)
    have 2: "(E - 2 * H) * b = 2 ^ 53 * u - 2 * u" by (simp add: E u_def algebra_simps)
    have 3: "b * E = 2 ^ 53 * u" by (simp add: E u_def algebra_simps)
    from close have 5: "(2 ^ 53 * u - S) * 2 ^ 52 \<le> S" by (simp only: 3)
    from 1 have 6: "S < 2 ^ 53 * u - 2 * u" by (simp only: 2)
    from 5 6 upos show False by simp
  qed
qed

lemma quotient_below_rounded:
  fixes q Qc E H st :: int
  assumes H: "1 < H" and E: "E = 2 ^ 53 * H" and q: "E - 2 * H \<le> q" "q < E"
    and st: "st = 0 \<or> st = 1"
    and lo: "2 * Qc * H \<le> 2 * q + st + H" and hi: "2 * q + st \<le> 2 * Qc * H + H"
  shows "2 ^ 53 - 2 \<le> Qc \<and> Qc \<le> 2 ^ 53"
proof
  define v where "v = Qc * H"
  have lo': "2 * v \<le> 2 * q + st + H" using lo by (simp add: v_def)
  have hi': "2 * q + st \<le> 2 * v + H" using hi by (simp add: v_def)
  show "2 ^ 53 - 2 \<le> Qc"
  proof (rule ccontr)
    assume "\<not> 2 ^ 53 - 2 \<le> Qc"
    then have "Qc \<le> 2 ^ 53 - 3" by simp
    then have "Qc * H \<le> (2 ^ 53 - 3) * H" using H by (intro mult_right_mono) simp_all
    then have "v \<le> 2 ^ 53 * H - 3 * H" by (simp add: v_def algebra_simps)
    with hi' q(1) st H show False by (auto simp: E)
  qed
  show "Qc \<le> 2 ^ 53"
  proof (rule ccontr)
    assume "\<not> Qc \<le> 2 ^ 53"
    then have "2 ^ 53 + 1 \<le> Qc" by simp
    then have "(2 ^ 53 + 1) * H \<le> Qc * H" using H by (intro mult_right_mono) simp_all
    then have "2 ^ 53 * H + H \<le> v" by (simp add: v_def algebra_simps)
    with lo' q(2) st H show False by (auto simp: E)
  qed
qed

lemma finish_rounded_value:
  assumes lo: "L \<le> int Qc" and hi: "int Qc \<le> U" and L: "0 < L" and U: "U * 2 ^ t < 2 ^ 2098"
  shows "\<exists>c kc. finish 1 Qc t = Fin c kc \<and> L * 2 ^ t \<le> c * 2 ^ kc \<and> c * 2 ^ kc \<le> U * 2 ^ t"
proof -
  have qpos: "0 < Qc" using lo L by simp
  have "int Qc * 2 ^ t \<le> U * 2 ^ t" using hi by (intro mult_right_mono) simp_all
  then have "int Qc * 2 ^ t < 2 ^ 2098" using U by (rule le_less_trans)
  then have "int (Qc * 2 ^ t) < int (2 ^ 2098)" by simp
  then have fin: "Qc * 2 ^ t < 2 ^ 2098" by (simp only: of_nat_less_iff)
  from finish_value [OF qpos fin] obtain c kc
    where f: "finish 1 Qc t = Fin c kc" and v: "c * 2 ^ kc = int Qc * 2 ^ t" by blast
  have "L * 2 ^ t \<le> int Qc * 2 ^ t" using lo by (intro mult_right_mono) simp_all
  moreover have "int Qc * 2 ^ t \<le> U * 2 ^ t" using hi by (intro mult_right_mono) simp_all
  ultimately show ?thesis using f v by auto
qed

lemma ddiv_near_one:
  assumes m: "0 < m" "bitlen (nat m) \<le> 53" and m2: "0 < m2"
    and close: "\<bar>m2 * 2 ^ k2 - m * 2 ^ k\<bar> * 2 ^ 52 \<le> m * 2 ^ k"
  shows "\<exists>c kc. ddiv (Fin m k) (Fin m2 k2) = Fin c kc
    \<and> 2 ^ 1074 - 2 ^ 1022 \<le> c * 2 ^ kc \<and> c * 2 ^ kc \<le> 2 ^ 1074 + 2 ^ 1022"
proof -
  define a where "a = nat m"
  define b where "b = nat m2"
  define ba where "ba = bitlen a"
  define bb where "bb = bitlen b"
  define pq where "pq = (56 + bb) - ba"
  define N1 where "N1 = a * 2 ^ pq"
  define q where "q = N1 div b"
  define st :: nat where "st = (if N1 mod b = 0 then 0 else 1)"
  define e where "e = int k - int k2 + 1074 - int pq - 1"
  define Sv where "Sv = m * 2 ^ k"
  define Pv where "Pv = m2 * 2 ^ k2"
  have apos: "0 < a" and bpos: "0 < b" and am: "int a = m" and bm: "int b = m2"
    using m(1) m2 by (simp_all add: a_def b_def)
  have dd: "ddiv (Fin m k) (Fin m2 k2) = round_double (int (2 * q + st)) e"
    using m(1) m2
    by (simp add: Let_def q_def st_def N1_def pq_def ba_def bb_def a_def b_def e_def)
  have ba53: "ba \<le> 53" using m(2) by (simp add: ba_def a_def)
  have bb1: "1 \<le> bb" using bitlen_pos [OF bpos] by (simp add: bb_def)
  have pqv: "ba + pq = 56 + bb" using ba53 by (simp add: pq_def)
  have bN: "bitlen N1 = 56 + bb"
    by (simp add: N1_def bitlen_scaled [OF apos] pqv flip: ba_def)
  have Npos: "0 < N1" using apos by (simp add: N1_def)
  from bitlen_bounds [OF Npos] have Nb: "2 ^ (55 + bb) \<le> N1" "N1 < 2 ^ (56 + bb)"
    by (simp_all add: bN)
  from bitlen_bounds [OF bpos] have bbd: "2 ^ (bb - 1) \<le> b" "b < 2 ^ bb"
    by (simp_all add: bb_def)
  have Svpos: "0 < Sv" using m(1) by (simp add: Sv_def)
  have cl: "\<bar>Pv - Sv\<bar> * 2 ^ 52 \<le> Sv" using close by (simp add: Sv_def Pv_def)
  have near: "Pv < 2 * Sv" "Sv < 2 * Pv"
  proof -
    have "\<bar>Pv - Sv\<bar> * 4 \<le> \<bar>Pv - Sv\<bar> * 2 ^ 52" by (intro mult_left_mono) simp_all
    then have "\<bar>Pv - Sv\<bar> * 4 \<le> Sv" using cl by (rule order_trans)
    with Svpos show "Pv < 2 * Sv" "Sv < 2 * Pv" by (simp_all add: abs_if split: if_splits)
  qed
  have NS: "int N1 * 2 ^ k = Sv * 2 ^ pq"
    by (simp add: N1_def Sv_def am mult_ac)
  have PB: "Pv * 2 ^ pq = int b * 2 ^ (k2 + pq)"
    by (simp add: Pv_def bm power_add mult_ac)
  have Ni: "(2::int) ^ (55 + bb) \<le> int N1" "int N1 < 2 ^ (56 + bb)"
  proof -
    from Nb(1) have "int (2 ^ (55 + bb)) \<le> int N1" by (simp only: of_nat_le_iff)
    then show "(2::int) ^ (55 + bb) \<le> int N1" by simp
    from Nb(2) have "int N1 < int (2 ^ (56 + bb))" by (simp only: of_nat_less_iff)
    then show "int N1 < 2 ^ (56 + bb)" by simp
  qed
  have bi: "(2::int) ^ (bb - 1) \<le> int b" "int b < 2 ^ bb"
  proof -
    from bbd(1) have "int (2 ^ (bb - 1)) \<le> int b" by (simp only: of_nat_le_iff)
    then show "(2::int) ^ (bb - 1) \<le> int b" by simp
    from bbd(2) have "int b < int (2 ^ bb)" by (simp only: of_nat_less_iff)
    then show "int b < 2 ^ bb" by simp
  qed
  have x_hi: "pq + k2 \<le> k + 57"
  proof (rule ccontr)
    assume "\<not> pq + k2 \<le> k + 57"
    then have "k + 58 \<le> k2 + pq" by simp
    then have "(2::int) ^ (k + 58) \<le> 2 ^ (k2 + pq)" by (rule power_increasing) simp
    then have "int b * 2 ^ (k + 58) \<le> int b * 2 ^ (k2 + pq)" by (intro mult_left_mono) simp_all
    moreover have "2 ^ (bb - 1) * 2 ^ (k + 58) \<le> int b * 2 ^ (k + 58)"
      using bi(1) by (intro mult_right_mono) simp_all
    moreover have "(2::int) ^ (bb - 1) * 2 ^ (k + 58) = 2 * (2 ^ (56 + bb) * 2 ^ k)"
    proof -
      have "bb - 1 + (k + 58) = Suc (56 + bb + k)" using bb1 by simp
      then have "(2::int) ^ (bb - 1 + (k + 58)) = 2 ^ Suc (56 + bb + k)" by simp
      then show ?thesis by (simp only: power_add power_Suc mult.assoc)
    qed
    ultimately have 1: "2 * (2 ^ (56 + bb) * 2 ^ k) \<le> Pv * 2 ^ pq" by (simp only: PB)
    have "int N1 * 2 ^ k < 2 ^ (56 + bb) * 2 ^ k" using Ni(2) by simp
    then have 2: "Sv * 2 ^ pq < 2 ^ (56 + bb) * 2 ^ k" by (simp only: NS)
    have "Pv * 2 ^ pq < (2 * Sv) * 2 ^ pq" using near(1) by simp
    with 1 2 show False by simp
  qed
  have x_lo: "k + 55 \<le> pq + k2"
  proof (rule ccontr)
    assume "\<not> k + 55 \<le> pq + k2"
    then have "k2 + pq \<le> k + 54" by simp
    then have "(2::int) ^ (k2 + pq) \<le> 2 ^ (k + 54)" by (rule power_increasing) simp
    then have "int b * 2 ^ (k2 + pq) \<le> int b * 2 ^ (k + 54)" by (intro mult_left_mono) simp_all
    moreover have "int b * 2 ^ (k + 54) < 2 ^ bb * 2 ^ (k + 54)" using bi(2) by simp
    ultimately have 1: "Pv * 2 ^ pq < 2 ^ bb * 2 ^ (k + 54)" by (simp only: PB)
    have "(2::int) ^ (55 + bb) * 2 ^ k = 2 * (2 ^ bb * 2 ^ (k + 54))"
    proof -
      have "55 + bb + k = Suc (bb + (k + 54))" by simp
      then have "(2::int) ^ (55 + bb + k) = 2 ^ Suc (bb + (k + 54))" by simp
      then show ?thesis by (simp only: power_add power_Suc mult.assoc)
    qed
    moreover have "2 ^ (55 + bb) * 2 ^ k \<le> int N1 * 2 ^ k"
      using Ni(1) by (intro mult_right_mono) simp_all
    ultimately have 2: "2 * (2 ^ bb * 2 ^ (k + 54)) \<le> Sv * 2 ^ pq" by (simp only: NS)
    have "Sv * 2 ^ pq < (2 * Pv) * 2 ^ pq" using near(2) by simp
    with 1 2 show False by simp
  qed
  define x where "x = pq + k2 - k"
  have xk: "k + x = pq + k2" and x55: "55 \<le> x" and x57: "x \<le> 57"
    using x_lo x_hi by (simp_all add: x_def)
  have ev: "e = 1073 - int x"
  proof -
    from xk have "int k + int x = int pq + int k2" by linarith
    then show ?thesis by (simp add: e_def)
  qed
  define S' where "S' = int N1"
  define P' where "P' = int b * 2 ^ x"
  have cl': "\<bar>P' - S'\<bar> * 2 ^ 52 \<le> S'"
  proof (rule scale_close_general [of "2 ^ k" "2 ^ pq" "2 ^ 52" P' Pv S' Sv])
    show "P' * 2 ^ k = Pv * 2 ^ pq"
    proof -
      have "P' * 2 ^ k = int b * 2 ^ (k + x)" by (simp add: P'_def power_add mult_ac)
      also have "\<dots> = Pv * 2 ^ pq" by (simp only: xk PB add.commute)
      finally show ?thesis .
    qed
    show "S' * 2 ^ k = Sv * 2 ^ pq" by (simp only: S'_def NS)
    show "\<bar>Pv - Sv\<bar> * 2 ^ 52 \<le> Sv" by (rule cl)
  qed simp_all
  have qb: "int q * int b \<le> S'" "S' < (int q + 1) * int b"
  proof -
    have d: "N1 = q * b + N1 mod b" by (simp add: q_def)
    have r: "N1 mod b < b" using bpos by simp
    from d have "q * b \<le> N1" by linarith
    then have "int (q * b) \<le> int N1" by (simp only: of_nat_le_iff)
    then show "int q * int b \<le> S'" by (simp add: S'_def)
    from d r have "N1 < (q + 1) * b" by simp
    then have "int N1 < int ((q + 1) * b)" by (simp only: of_nat_less_iff)
    then show "S' < (int q + 1) * int b" by (simp add: S'_def algebra_simps)
  qed
  have st01: "int st = 0 \<or> int st = 1" by (simp add: st_def)
  have bipos: "0 < int b" using bpos by simp
  define qq where "qq = 2 * q + st"
  show ?thesis
  proof (cases "P' \<le> S'")
    case True
    define H :: int where "H = 2 ^ (x - 52)"
    have E: "(2::int) ^ x = 2 ^ 52 * H"
    proof -
      have "x = 52 + (x - 52)" using x55 by simp
      then have "(2::int) ^ x = 2 ^ (52 + (x - 52))" by simp
      then show ?thesis by (simp only: power_add H_def)
    qed
    have Hb: "8 \<le> H" "H \<le> 32"
    proof -
      have "(2::int) ^ 3 \<le> 2 ^ (x - 52)" by (rule power_increasing) (use x55 in simp_all)
      then show "8 \<le> H" by (simp add: H_def)
      have "(2::int) ^ (x - 52) \<le> 2 ^ 5" by (rule power_increasing) (use x57 in simp_all)
      then show "H \<le> 32" by (simp add: H_def)
    qed
    have ge: "int b * 2 ^ x \<le> S'" using True by (simp add: P'_def)
    have c2: "(S' - int b * 2 ^ x) * 2 ^ 52 \<le> S'" using cl' True by (simp add: P'_def)
    from quotient_above [OF bipos _ _ E ge c2 qb] Hb
    have qr: "2 ^ x \<le> int q" "int q \<le> 2 ^ x + H" by simp_all
    have q1: "2 ^ Suc x \<le> qq"
    proof -
      from qr(1) have "int (2 ^ x) \<le> int q" by simp
      then have "2 ^ x \<le> q" by (simp only: of_nat_le_iff)
      then show ?thesis by (simp add: qq_def)
    qed
    have q2: "qq < 2 ^ Suc (Suc x)"
    proof -
      have "int qq = 2 * int q + int st" by (simp add: qq_def)
      with qr(2) st01 have "int qq \<le> 2 * 2 ^ x + 2 * H + 1" by auto
      moreover have "2 * H + 1 < 2 * (2::int) ^ x" using Hb by (simp add: E)
      ultimately have "int qq < int (2 ^ Suc (Suc x))" by simp
      then show ?thesis by (simp only: of_nat_less_iff)
    qed
    have bq: "bitlen qq = x + 2" using bitlen_unique [OF q1 q2] by simp
    have qqpos: "0 < qq" using q1 by (metis less_le_trans zero_less_numeral zero_less_power)
    define sh where "sh = x - 51"
    have shpos: "0 < sh" using x55 by (simp add: sh_def)
    have t1: "int 1022 = max 0 (e + int (bitlen qq) - 53)" by (simp add: bq ev)
    have t2: "int 1022 = e + int sh" using x55 by (simp add: ev sh_def)
    from round_double_rounded [OF qqpos shpos t1 t2] obtain Qc
      where rd: "round_double (int qq) e = finish 1 Qc 1022"
        and lo: "2 * Qc * 2 ^ sh \<le> 2 * qq + 2 ^ sh" and hi: "2 * qq \<le> 2 * Qc * 2 ^ sh + 2 ^ sh"
      by blast
    have sh2: "(2::int) ^ sh = 2 * H"
    proof -
      have "sh = Suc (x - 52)" using x55 by (simp add: sh_def)
      then show ?thesis by (simp add: H_def)
    qed
    have lo': "2 * int Qc * H \<le> 2 * int q + int st + H"
    proof -
      from lo have "int (2 * Qc * 2 ^ sh) \<le> int (2 * qq + 2 ^ sh)" by (simp only: of_nat_le_iff)
      then have "2 * int Qc * 2 ^ sh \<le> 2 * int qq + 2 ^ sh" by simp
      then have "2 * int Qc * (2 * H) \<le> 2 * (2 * int q + int st) + 2 * H"
        by (simp only: sh2) (simp add: qq_def)
      then show ?thesis by simp
    qed
    have hi': "2 * int q + int st \<le> 2 * int Qc * H + H"
    proof -
      from hi have "int (2 * qq) \<le> int (2 * Qc * 2 ^ sh + 2 ^ sh)" by (simp only: of_nat_le_iff)
      then have "2 * int qq \<le> 2 * int Qc * 2 ^ sh + 2 ^ sh" by simp
      then have "2 * (2 * int q + int st) \<le> 2 * int Qc * (2 * H) + 2 * H"
        by (simp only: sh2) (simp add: qq_def)
      then show ?thesis by simp
    qed
    from quotient_above_rounded [OF _ E qr st01 lo' hi'] Hb
    have Qr: "2 ^ 52 \<le> int Qc" "int Qc \<le> 2 ^ 52 + 1" by simp_all
    have "\<exists>c kc. finish 1 Qc 1022 = Fin c kc \<and> 2 ^ 52 * 2 ^ 1022 \<le> c * 2 ^ kc
        \<and> c * 2 ^ kc \<le> (2 ^ 52 + 1) * 2 ^ 1022"
      by (rule finish_rounded_value [OF Qr]) simp_all
    then obtain c kc where f: "finish 1 Qc 1022 = Fin c kc"
      and v: "2 ^ 52 * 2 ^ 1022 \<le> c * 2 ^ kc" "c * 2 ^ kc \<le> (2 ^ 52 + 1) * 2 ^ 1022"
      by blast
    from v have "2 ^ 1074 - 2 ^ 1022 \<le> c * 2 ^ kc" "c * 2 ^ kc \<le> 2 ^ 1074 + 2 ^ 1022"
      by simp_all
    with f dd rd show ?thesis by (simp add: qq_def)
  next
    case False
    then have lt: "S' < int b * 2 ^ x" by (simp add: P'_def)
    define H :: int where "H = 2 ^ (x - 53)"
    have E: "(2::int) ^ x = 2 ^ 53 * H"
    proof -
      have "x = 53 + (x - 53)" using x55 by simp
      then have "(2::int) ^ x = 2 ^ (53 + (x - 53))" by simp
      then show ?thesis by (simp only: power_add H_def)
    qed
    have Hb: "4 \<le> H" "H \<le> 16"
    proof -
      have "(2::int) ^ 2 \<le> 2 ^ (x - 53)" by (rule power_increasing) (use x55 in simp_all)
      then show "4 \<le> H" by (simp add: H_def)
      have "(2::int) ^ (x - 53) \<le> 2 ^ 4" by (rule power_increasing) (use x57 in simp_all)
      then show "H \<le> 16" by (simp add: H_def)
    qed
    have c2: "(int b * 2 ^ x - S') * 2 ^ 52 \<le> S'" using cl' False by (simp add: P'_def)
    from quotient_below [OF bipos _ E lt c2 qb] Hb
    have qr: "2 ^ x - 2 * H \<le> int q" "int q < 2 ^ x" by simp_all
    obtain y where y: "x = Suc y" using x55 by (cases x) auto
    have q1: "2 ^ Suc y \<le> qq"
    proof -
      have "(2::int) ^ x \<le> 2 * (2 ^ x - 2 * H)" using Hb by (simp add: E)
      with qr(1) have "(2::int) ^ x \<le> 2 * int q" by simp
      then have "int (2 ^ x) \<le> int (2 * q)" by simp
      then have "2 ^ x \<le> 2 * q" by (simp only: of_nat_le_iff)
      then show ?thesis by (simp add: qq_def y)
    qed
    have q2: "qq < 2 ^ Suc (Suc y)"
    proof -
      from qr(2) have "int q < int (2 ^ x)" by simp
      then have "q < 2 ^ x" by (simp only: of_nat_less_iff)
      moreover have "st \<le> 1" by (simp add: st_def)
      ultimately have "2 * q + st < 2 * 2 ^ x" by linarith
      then show ?thesis by (simp add: qq_def y)
    qed
    have bq: "bitlen qq = x + 1" using bitlen_unique [OF q1 q2] by (simp add: y)
    have qqpos: "0 < qq" using q1 by (metis less_le_trans zero_less_numeral zero_less_power)
    define sh where "sh = x - 52"
    have shpos: "0 < sh" using x55 by (simp add: sh_def)
    have t1: "int 1021 = max 0 (e + int (bitlen qq) - 53)" by (simp add: bq ev)
    have t2: "int 1021 = e + int sh" using x55 by (simp add: ev sh_def)
    from round_double_rounded [OF qqpos shpos t1 t2] obtain Qc
      where rd: "round_double (int qq) e = finish 1 Qc 1021"
        and lo: "2 * Qc * 2 ^ sh \<le> 2 * qq + 2 ^ sh" and hi: "2 * qq \<le> 2 * Qc * 2 ^ sh + 2 ^ sh"
      by blast
    have sh2: "(2::int) ^ sh = 2 * H"
    proof -
      have "sh = Suc (x - 53)" using x55 by (simp add: sh_def)
      then show ?thesis by (simp add: H_def)
    qed
    have lo': "2 * int Qc * H \<le> 2 * int q + int st + H"
    proof -
      from lo have "int (2 * Qc * 2 ^ sh) \<le> int (2 * qq + 2 ^ sh)" by (simp only: of_nat_le_iff)
      then have "2 * int Qc * 2 ^ sh \<le> 2 * int qq + 2 ^ sh" by simp
      then have "2 * int Qc * (2 * H) \<le> 2 * (2 * int q + int st) + 2 * H"
        by (simp only: sh2) (simp add: qq_def)
      then show ?thesis by simp
    qed
    have hi': "2 * int q + int st \<le> 2 * int Qc * H + H"
    proof -
      from hi have "int (2 * qq) \<le> int (2 * Qc * 2 ^ sh + 2 ^ sh)" by (simp only: of_nat_le_iff)
      then have "2 * int qq \<le> 2 * int Qc * 2 ^ sh + 2 ^ sh" by simp
      then have "2 * (2 * int q + int st) \<le> 2 * int Qc * (2 * H) + 2 * H"
        by (simp only: sh2) (simp add: qq_def)
      then show ?thesis by simp
    qed
    from quotient_below_rounded [OF _ E qr st01 lo' hi'] Hb
    have Qr: "2 ^ 53 - 2 \<le> int Qc" "int Qc \<le> 2 ^ 53" by simp_all
    have "\<exists>c kc. finish 1 Qc 1021 = Fin c kc \<and> (2 ^ 53 - 2) * 2 ^ 1021 \<le> c * 2 ^ kc
        \<and> c * 2 ^ kc \<le> 2 ^ 53 * 2 ^ 1021"
      by (rule finish_rounded_value [OF Qr]) simp_all
    then obtain c kc where f: "finish 1 Qc 1021 = Fin c kc"
      and v: "(2 ^ 53 - 2) * 2 ^ 1021 \<le> c * 2 ^ kc" "c * 2 ^ kc \<le> 2 ^ 53 * 2 ^ 1021"
      by blast
    from v have "2 ^ 1074 - 2 ^ 1022 \<le> c * 2 ^ kc" "c * 2 ^ kc \<le> 2 ^ 1074 + 2 ^ 1022"
      by simp_all
    with f dd rd show ?thesis by (simp add: qq_def)
  qed
qed

subsection \<open>Sums of squares are doubles\<close>

text \<open>
  Every finite result of an operation has a mantissa of at most 53 bits and is below
  \<open>2 ^ 2098\<close> units, so the facts above apply to the sum of squares of a vector.
\<close>

lemma round_magnitude_le: "round_magnitude a s \<le> a div 2 ^ s + 1"
  by (simp add: round_magnitude_def Let_def)

lemma finish_repr:
  assumes f: "finish sg q t = Fin m k" and q: "q \<le> 2 ^ 53" and sg: "sg = 1 \<or> sg = - 1"
  shows "bitlen (nat \<bar>m\<bar>) \<le> 53 \<and> \<bar>m\<bar> * 2 ^ k < 2 ^ 2098"
proof (cases "q = 0")
  case True
  with f show ?thesis by (simp add: finish_def bitlen_eval)
next
  case False
  then have qpos: "0 < q" by simp
  from f qpos sg have no: "\<not> 2098 < bitlen q + t" and n: "normalise (sg * int q) t = Fin m k"
    by (auto simp: finish_def split: if_splits)
  from normalise_shape [of "sg * int q" t] n have v: "m * 2 ^ k = sg * int q * 2 ^ t" by simp
  from sg qpos have nz: "sg * int q \<noteq> 0" by auto
  then have "m \<noteq> 0" using v by auto
  with normalise_odd [OF n] have od: "odd m" by auto
  have av: "\<bar>m\<bar> * 2 ^ k = int q * 2 ^ t"
  proof -
    have "\<bar>m * 2 ^ k\<bar> = \<bar>sg * int q * 2 ^ t\<bar>" by (simp only: v)
    with sg show ?thesis by (auto simp: abs_mult)
  qed
  have "0 < q * 2 ^ t" using qpos by simp
  from bitlen_less_iff [OF this, of 2098] no have "q * 2 ^ t < 2 ^ 2098"
    by (simp add: bitlen_scaled [OF qpos])
  then have "int (q * 2 ^ t) < int (2 ^ 2098)" by (simp only: of_nat_less_iff)
  then have fin: "\<bar>m\<bar> * 2 ^ k < 2 ^ 2098" by (simp add: av)
  have tk: "t \<le> k"
  proof (rule ccontr)
    assume "\<not> t \<le> k"
    then have "k < t" by simp
    then obtain d where d: "t = k + Suc d" by (auto dest: less_imp_Suc_add)
    have "\<bar>m\<bar> * 2 ^ k = (int q * 2 ^ Suc d) * 2 ^ k"
      by (simp only: av d power_add mult_ac)
    then have "\<bar>m\<bar> = int q * 2 ^ Suc d" by simp
    then have "even \<bar>m\<bar>" by simp
    with od show False by simp
  qed
  then obtain j where j: "k = t + j" by (auto simp: le_iff_add)
  have "(\<bar>m\<bar> * 2 ^ j) * 2 ^ t = int q * 2 ^ t" by (simp only: av [symmetric] j power_add mult_ac)
  then have mq: "\<bar>m\<bar> * 2 ^ j = int q" by simp
  have "\<bar>m\<bar> * 1 \<le> \<bar>m\<bar> * 2 ^ j" by (intro mult_left_mono) simp_all
  with mq have "\<bar>m\<bar> \<le> int q" by simp
  moreover from q have "int q \<le> int (2 ^ 53)" by (simp only: of_nat_le_iff)
  ultimately have "\<bar>m\<bar> \<le> 2 ^ 53" by simp
  moreover have "\<bar>m\<bar> \<noteq> 2 ^ 53" using od by (metis even_abs_add_iff even_add even_numeral even_power zero_less_numeral)
  ultimately have "\<bar>m\<bar> < 2 ^ 53" by simp
  then have "int (nat \<bar>m\<bar>) < int (2 ^ 53)" by simp
  then have lt: "nat \<bar>m\<bar> < 2 ^ 53" by (simp only: of_nat_less_iff)
  have "0 < nat \<bar>m\<bar>" using \<open>m \<noteq> 0\<close> by simp
  from bitlen_less_iff [OF this, of 53] lt have "bitlen (nat \<bar>m\<bar>) \<le> 53" by simp
  with fin show ?thesis by simp
qed

lemma round_double_repr:
  assumes "round_double x e = Fin m k"
  shows "bitlen (nat \<bar>m\<bar>) \<le> 53 \<and> \<bar>m\<bar> * 2 ^ k < 2 ^ 2098"
proof (cases "x = 0")
  case True
  with assms show ?thesis by (simp add: round_double_0 bitlen_eval)
next
  case False
  define a where "a = nat \<bar>x\<bar>"
  define t where "t = max 0 (e + int (bitlen a) - 53)"
  define s where "s = nat (t - e)"
  have apos: "0 < a" using False by (simp add: a_def)
  have sg: "sgn x = 1 \<or> sgn x = - 1" using False by (simp add: sgn_if)
  have r: "round_double x e =
      (if s = 0 then finish (sgn x) a (nat e) else finish (sgn x) (round_magnitude a s) (nat t))"
    unfolding round_double_def Let_def a_def t_def s_def ..
  from bitlen_bounds [OF apos] have ab: "a < 2 ^ bitlen a" by simp
  show ?thesis
  proof (cases "s = 0")
    case True
    then have "bitlen a \<le> 53" by (simp add: s_def t_def)
    then have "(2::nat) ^ bitlen a \<le> 2 ^ 53" by (rule power_increasing) simp
    with ab have q: "a \<le> 2 ^ 53" by linarith
    from r True assms have "finish (sgn x) a (nat e) = Fin m k" by simp
    from finish_repr [OF this q sg] show ?thesis .
  next
    case f: False
    then have "bitlen a \<le> s + 53" by (simp add: s_def t_def)
    then have "(2::nat) ^ bitlen a \<le> 2 ^ (s + 53)" by (rule power_increasing) simp
    with ab have "a < 2 ^ 53 * 2 ^ s" by (simp add: power_add mult.commute)
    then have "a div 2 ^ s < 2 ^ 53" by (simp add: less_mult_imp_div_less)
    with round_magnitude_le [of a s] have q: "round_magnitude a s \<le> 2 ^ 53" by linarith
    from r f assms have "finish (sgn x) (round_magnitude a s) (nat t) = Fin m k" by simp
    from finish_repr [OF this q sg] show ?thesis .
  qed
qed

lemma dadd_repr:
  assumes "dadd a b = Fin m k"
  shows "bitlen (nat \<bar>m\<bar>) \<le> 53 \<and> \<bar>m\<bar> * 2 ^ k < 2 ^ 2098"
  using assms
  by (cases a; cases b) (auto simp: Let_def dest: round_double_repr split: if_splits)

lemma sum_squares_repr:
  assumes "sum_squares ds = Fin m k" "0 < m"
  shows "bitlen (nat m) \<le> 53 \<and> m * 2 ^ k < 2 ^ 2098"
proof (cases ds rule: rev_cases)
  case Nil
  with assms show ?thesis by (simp add: sum_squares_def float_sum_def zero_def)
next
  case (snoc ys y)
  with assms(1) have "dadd (foldl dadd zero (map (\<lambda>d. dmul d d) ys)) (dmul y y) = Fin m k"
    by (simp add: sum_squares_def float_sum_def)
  from dadd_repr [OF this] assms(2) show ?thesis by simp
qed

lemma dsqrt_odd:
  assumes "dsqrt (Fin m k) = Fin m' k'" "0 < m"
  shows "odd m' \<or> (m' = 0 \<and> k' = 0)"
proof -
  from assms(2) have ms: "\<not> m < 0" "m \<noteq> 0" by simp_all
  from assms(1) show ?thesis
    by (simp only: dsqrt.simps Let_def ms if_False) (rule round_double_odd)
qed

text \<open>A vector of numbers with itself, when the sum of its squares is finite and positive.\<close>

lemma self_quotient_near_one:
  assumes s: "sum_squares ds = Fin m k" and m: "0 < m"
  shows "\<exists>c kc. cosine tn (Arr (map Num ds)) (Arr (map Num ds)) = Fin c kc
    \<and> 2 ^ 1074 - 2 ^ 1022 \<le> c * 2 ^ kc \<and> c * 2 ^ kc \<le> 2 ^ 1074 + 2 ^ 1022"
proof -
  from sum_squares_repr [OF s m] have rp: "bitlen (nat m) \<le> 53" "m * 2 ^ k < 2 ^ 2098"
    by simp_all
  from dsqrt_spec [OF m rp] obtain Q t M m1 k1
    where r: "dsqrt (Fin m k) = Fin m1 k1" and rv: "m1 * 2 ^ k1 = int Q * 2 ^ t"
      and rel: "m * 2 ^ k * 2 ^ 1074 = int M * 4 ^ t"
      and M: "2 ^ 104 \<le> M" "M < 2 ^ 106" "2 ^ 52 dvd M" "2 ^ 105 \<le> M \<longrightarrow> 2 ^ 53 dvd M"
      and Q: "0 < Q" "Q * Q < M + Q" "M \<le> Q * Q + Q"
    by blast
  have "0 < int Q * 2 ^ t" using Q(1) by simp
  then have "0 < m1 * 2 ^ k1" by (simp only: rv)
  then have m1pos: "0 < m1" by (simp add: zero_less_mult_iff)
  with dsqrt_odd [OF r m] have od: "odd m1" by auto
  from dmul_root_spec [OF od rv rp(2) rel M Q] obtain m2 k2
    where p: "dmul (Fin m1 k1) (Fin m1 k1) = Fin m2 k2" and m2: "0 < m2"
      and cl: "\<bar>m2 * 2 ^ k2 - m * 2 ^ k\<bar> * 2 ^ 52 \<le> m * 2 ^ k"
    by blast
  from ddiv_near_one [OF m rp(1) m2 cl] obtain c kc
    where d: "ddiv (Fin m k) (Fin m2 k2) = Fin c kc"
      and b: "2 ^ 1074 - 2 ^ 1022 \<le> c * 2 ^ kc" "c * 2 ^ kc \<le> 2 ^ 1074 + 2 ^ 1022"
    by blast
  from s m have ne: "ds \<noteq> []" by (auto simp: sum_squares_Nil)
  have nz: "\<not> deq (Fin m1 k1) zero" using m1pos by (simp add: zero_def compare_zero_eval)
  have "cosine tn (Arr (map Num ds)) (Arr (map Num ds)) = Fin c kc"
    using ne nz by (simp add: cosine_self s r p d del: dsqrt.simps ddiv.simps dmul.simps)
  with b show ?thesis by blast
qed

subsection \<open>The result\<close>

lemma near_one_bounds:
  assumes "2 ^ 1074 - 2 ^ 1022 \<le> c * 2 ^ kc" "c * 2 ^ kc \<le> 2 ^ 1074 + 2 ^ 1022"
  shows "dge (Fin c kc) below_one \<and> dge above_one (Fin c kc)"
proof -
  define P :: int where "P = 2 ^ 1022"
  have "(2::int) ^ 1074 = 2 ^ 52 * 2 ^ 1022" by (simp only: power_add [symmetric]) simp
  then have e: "(2::int) ^ 1074 = 4503599627370496 * P" by (simp add: P_def)
  from assms have "4503599627370495 * P \<le> c * 2 ^ kc" "c * 2 ^ kc \<le> 4503599627370497 * P"
    unfolding e P_def [symmetric] by simp_all
  then show ?thesis
    unfolding dge_def below_one_def above_one_def dlt_Fin deq_Fin P_def by linarith
qed

lemma self_exact_one:
  assumes s: "sum_squares ds = Fin m k" and m: "0 < m"
    and q: "deq (dmul (dsqrt (Fin m k)) (dsqrt (Fin m k))) (Fin m k)"
  shows "cosine tn (Arr (map Num ds)) (Arr (map Num ds)) = one"
proof -
  from s have "odd m \<or> (m = 0 \<and> k = 0)"
    unfolding sum_squares_def by (rule float_sum_odd)
  with q have e: "dmul (dsqrt (Fin m k)) (dsqrt (Fin m k)) = Fin m k"
    by (rule deq_canonical) (rule dmul_odd)
  from s m have "ds \<noteq> []" by (auto simp: sum_squares_Nil)
  moreover have "\<not> deq (dsqrt (Fin m k)) zero"
    by (rule exact_root_not_zero [OF m e])
  ultimately show ?thesis
    using m by (simp add: cosine_self s e ddiv_self del: dsqrt.simps ddiv.simps)
qed

lemma self_zero_sum:
  assumes s: "sum_squares ds = Fin 0 k"
  shows "cosine tn (Arr (map Num ds)) (Arr (map Num ds)) = zero"
  by (simp add: cosine_self s zero_def compare_zero_eval)

lemma self_not_a_number:
  assumes s: "\<not> (\<exists>m k. sum_squares ds = Fin m k \<and> 0 \<le> m)"
  shows "cosine tn (Arr (map Num ds)) (Arr (map Num ds)) = NaN"
proof -
  from s have ne: "ds \<noteq> []" by (auto simp: sum_squares_Nil)
  show ?thesis
  proof (cases "sum_squares ds")
    case (Fin m k)
    with s have "m < 0" by auto
    with ne Fin show ?thesis by (simp add: cosine_self zero_def)
  qed (use ne in \<open>simp_all add: cosine_self zero_def\<close>)
qed

text \<open>
  Claim C6, as amended. For every vector \<open>v\<close> of numbers both calls return, and
  \<open>cosineSimilarity(v, -v)\<close> is the negation of \<open>c = cosineSimilarity(v, v)\<close>. With \<open>s\<close> the
  sum of the squares of \<open>v\<close> as computed: when \<open>s\<close> is finite and positive, \<open>c\<close> is a double
  with \<open>0.9999999999999998 \<le> c \<le> 1.0000000000000002\<close>, that is within \<open>2 ^ (-52)\<close> of 1,
  and \<open>c\<close> is 1 when the square root of \<open>s\<close> multiplied by itself is \<open>s\<close> again; when \<open>s\<close> is
  zero, \<open>c\<close> is 0; when \<open>s\<close> is infinite or not a number, \<open>c\<close> is NaN.
\<close>

theorem cosineSimilarity_self_and_negation:
  "\<exists>c. cosineSimilarity tn (Arr (map Num ds)) (Arr (map Num ds)) = Inr c
     \<and> cosineSimilarity tn (Arr (map Num ds)) (Arr (map Num (map dneg ds))) = Inr (dneg c)
     \<and> (case sum_squares ds of
          Fin m k \<Rightarrow>
            if 0 < m then
              dge c below_one \<and> dge above_one c
              \<and> (deq (dmul (dsqrt (Fin m k)) (dsqrt (Fin m k))) (Fin m k) \<longrightarrow> c = one)
            else if m = 0 then c = zero
            else c = NaN
        | _ \<Rightarrow> c = NaN)"
proof -
  define c where "c = cosine tn (Arr (map Num ds)) (Arr (map Num ds))"
  have a: "cosineSimilarity tn (Arr (map Num ds)) (Arr (map Num ds)) = Inr c"
    unfolding c_def by (rule cosineSimilarity_numbers)
  have "cosine tn (Arr (map Num ds)) (Arr (map Num (map dneg ds))) = dneg c"
    unfolding c_def
    by (simp add: cosine_self cosine_negation dneg_zero ddiv_neg_left del: map_map)
  with cosineSimilarity_numbers [of tn ds "map dneg ds"]
  have b: "cosineSimilarity tn (Arr (map Num ds)) (Arr (map Num (map dneg ds))) = Inr (dneg c)"
    by (simp only:)
  have d: "case sum_squares ds of
          Fin m k \<Rightarrow>
            if 0 < m then
              dge c below_one \<and> dge above_one c
              \<and> (deq (dmul (dsqrt (Fin m k)) (dsqrt (Fin m k))) (Fin m k) \<longrightarrow> c = one)
            else if m = 0 then c = zero
            else c = NaN
        | _ \<Rightarrow> c = NaN"
  proof (cases "sum_squares ds")
    case (Fin m k)
    consider "0 < m" | "m = 0" | "m < 0" by linarith
    then show ?thesis
    proof cases
      case 1
      from self_quotient_near_one [OF Fin 1, of tn] obtain c' kc
        where v: "c = Fin c' kc" and l: "2 ^ 1074 - 2 ^ 1022 \<le> c' * 2 ^ kc"
          and u: "c' * 2 ^ kc \<le> 2 ^ 1074 + 2 ^ 1022"
        unfolding c_def by blast
      from near_one_bounds [OF l u] have "dge c below_one \<and> dge above_one c"
        by (simp only: v)
      moreover have "c = one" if "deq (dmul (dsqrt (Fin m k)) (dsqrt (Fin m k))) (Fin m k)"
        unfolding c_def using Fin 1 that by (rule self_exact_one)
      ultimately show ?thesis using 1 by (simp only: Fin double.case if_True) blast
    next
      case 2
      with Fin have "c = zero" unfolding c_def by (simp only: self_zero_sum)
      with 2 show ?thesis by (simp add: Fin)
    next
      case 3
      with Fin have "\<not> (\<exists>m k. sum_squares ds = Fin m k \<and> 0 \<le> m)" by simp
      then have "c = NaN" unfolding c_def by (rule self_not_a_number)
      with 3 show ?thesis by (simp add: Fin)
    qed
  next
    case NaN
    then have "\<not> (\<exists>m k. sum_squares ds = Fin m k \<and> 0 \<le> m)" by simp
    then have "c = NaN" unfolding c_def by (rule self_not_a_number)
    then show ?thesis by (simp add: NaN)
  next
    case PInf
    then have "\<not> (\<exists>m k. sum_squares ds = Fin m k \<and> 0 \<le> m)" by simp
    then have "c = NaN" unfolding c_def by (rule self_not_a_number)
    then show ?thesis by (simp add: PInf)
  next
    case NInf
    then have "\<not> (\<exists>m k. sum_squares ds = Fin m k \<and> 0 \<le> m)" by simp
    then have "c = NaN" unfolding c_def by (rule self_not_a_number)
    then show ?thesis by (simp add: NInf)
  qed
  from a b d show ?thesis by blast
qed

theorem cosineSimilarity_self_and_negation_witness:
  "sum_squares [of_int_d 3, of_int_d 4] = Fin 25 1074
   \<and> deq (dmul (dsqrt (Fin 25 1074)) (dsqrt (Fin 25 1074))) (Fin 25 1074)
   \<and> cosineSimilarity tn_sample (Arr [Num (of_int_d 3), Num (of_int_d 4)])
        (Arr [Num (of_int_d 3), Num (of_int_d 4)]) = Inr one
   \<and> cosineSimilarity tn_sample (Arr [Num (of_int_d 3), Num (of_int_d 4)])
        (Arr [Num (dneg (of_int_d 3)), Num (dneg (of_int_d 4))]) = Inr (dneg one)
   \<and> sum_squares [one, one] = Fin 1 1075
   \<and> cosineSimilarity tn_sample (Arr [Num one, Num one]) (Arr [Num one, Num one]) = Inr below_one
   \<and> cosineSimilarity tn_sample (Arr [Num one, Num one]) (Arr [Num (dneg one), Num (dneg one)]) =
       Inr (dneg below_one)
   \<and> dge below_one below_one \<and> dge above_one below_one
   \<and> sum_squares [one, of_int_d 5] = Fin 13 1075
   \<and> cosineSimilarity tn_sample (Arr [Num one, Num (of_int_d 5)])
        (Arr [Num one, Num (of_int_d 5)]) = Inr above_one
   \<and> dge above_one below_one \<and> dge above_one above_one"
proof -
  have s: "sum_squares [of_int_d 3, of_int_d 4] = Fin 25 1074"
    by (simp add: sum_squares_def float_sum_def eval_double cong: let_weak_cong split del: if_split)
  have e: "dmul (dsqrt (Fin 25 1074)) (dsqrt (Fin 25 1074)) = Fin 25 1074"
    by (simp add: eval_double cong: let_weak_cong split del: if_split)
  have q: "deq (dmul (dsqrt (Fin 25 1074)) (dsqrt (Fin 25 1074))) (Fin 25 1074)"
    by (simp only: e) (simp add: deq_Fin)
  from cosineSimilarity_self_and_negation [of tn_sample "[of_int_d 3, of_int_d 4]"] s q
  have x: "cosineSimilarity tn_sample (Arr [Num (of_int_d 3), Num (of_int_d 4)])
        (Arr [Num (of_int_d 3), Num (of_int_d 4)]) = Inr one
   \<and> cosineSimilarity tn_sample (Arr [Num (of_int_d 3), Num (of_int_d 4)])
        (Arr [Num (dneg (of_int_d 3)), Num (dneg (of_int_d 4))]) = Inr (dneg one)"
    by (auto simp del: dsqrt.simps dmul.simps(1))
  have t: "sum_squares [one, one] = Fin 1 1075"
    by (simp add: sum_squares_def float_sum_def eval_double cong: let_weak_cong split del: if_split)
  have a: "cosineSimilarity tn_sample (Arr [Num one, Num one]) (Arr [Num one, Num one]) =
      Inr below_one"
    by (simp add: cosineSimilarity_pair cos2 below_one_def eval_double
        cong: let_weak_cong split del: if_split)
  from cosineSimilarity_self_and_negation [of tn_sample "[one, one]"] t a
  have y: "cosineSimilarity tn_sample (Arr [Num one, Num one])
        (Arr [Num (dneg one), Num (dneg one)]) = Inr (dneg below_one)
      \<and> dge below_one below_one \<and> dge above_one below_one"
    by (auto simp del: dsqrt.simps dmul.simps(1))
  have u: "sum_squares [one, of_int_d 5] = Fin 13 1075"
    by (simp add: sum_squares_def float_sum_def eval_double cong: let_weak_cong split del: if_split)
  have b: "cosineSimilarity tn_sample (Arr [Num one, Num (of_int_d 5)])
        (Arr [Num one, Num (of_int_d 5)]) = Inr above_one"
    by (simp add: cosineSimilarity_pair cos2 above_one_def eval_double
        cong: let_weak_cong split del: if_split)
  from cosineSimilarity_self_and_negation [of tn_sample "[one, of_int_d 5]"] u b
  have z: "dge above_one below_one \<and> dge above_one above_one"
    by (auto simp del: dsqrt.simps dmul.simps(1))
  from s q x t a y u b z show ?thesis by (simp only: simp_thms)
qed

text \<open>
  The claim as stated fails: for \<open>v = [1, 1]\<close> the norm is the double nearest to the square
  root of 2, its square is 2.0000000000000004, and the result is 0.9999999999999998;
  for \<open>v = [1e200]\<close> the squares overflow and the result is NaN; for \<open>v = [5e-324]\<close>, the
  smallest positive double, the square rounds to zero and the result is 0.
\<close>

theorem cosineSimilarity_self_not_one:
  "cosineSimilarity tn_sample (Arr [Num one, Num one]) (Arr [Num one, Num one]) \<noteq> Inr one
   \<and> cosineSimilarity tn_sample (Arr [Num one, Num one]) (Arr [Num one, Num one]) =
       Inr (Fin 4503599627370495 1022)
   \<and> cosineSimilarity tn_sample (Arr [Num d1e200]) (Arr [Num d1e200]) = Inr NaN
   \<and> cosineSimilarity tn_sample (Arr [Num (Fin 1 0)]) (Arr [Num (Fin 1 0)]) = Inr zero"
proof -
  have a: "cosineSimilarity tn_sample (Arr [Num one, Num one]) (Arr [Num one, Num one]) =
       Inr (Fin 4503599627370495 1022)"
    by (simp add: cosineSimilarity_pair cos2 eval_double cong: let_weak_cong split del: if_split)
  have n: "cosineSimilarity tn (Arr [Num x]) (Arr [Num x]) = Inr (cosine tn (Arr [Num x]) (Arr [Num x]))"
    for tn x
    using cosineSimilarity_numbers [of tn "[x]" "[x]"] by simp
  have b: "cosineSimilarity tn_sample (Arr [Num d1e200]) (Arr [Num d1e200]) = Inr NaN"
    by (simp add: n cosine_def num_of_def d1e200_def eval_double
        cong: let_weak_cong split del: if_split)
  have c: "cosineSimilarity tn_sample (Arr [Num (Fin 1 0)]) (Arr [Num (Fin 1 0)]) = Inr zero"
    by (simp add: n cosine_def num_of_def eval_double
        cong: let_weak_cong split del: if_split)
  from a b c show ?thesis by (simp add: one_def)
qed

section \<open>Reachability of the retriever's error branches\<close>

lemma score_doc_fallback_query: "score (score_doc tn net fallback p) = zero"
proof (cases p)
  case (Pair i doc)
  show ?thesis
    unfolding Pair
    by (cases "isArray (generateEmbeddings (net (Suc i)) (content doc))
          \<and> list_ex no_primitive (take 512 (elems (generateEmbeddings (net (Suc i)) (content doc))))")
      (simp_all add: score_doc_fields cosineSimilarity_fallback)
qed

lemma retrieve_failed_query:
  assumes "generateEmbeddings_try (net 0 (Str query)) = Inl e"
  shows "retrieveRelevantDocsWithEmbeddings tn net query documents =
    ([], Str query # map content documents)"
proof -
  from assms have f: "generateEmbeddings (net 0) (Str query) = fallback"
    by (rule generateEmbeddings_thrown)
  have "filter (\<lambda>doc. dgt (score doc) half)
      (map (score_doc tn net fallback) (zip [0..<length documents] documents)) = []"
    by (simp add: filter_empty_conv score_doc_fallback_query not_zero_gt_half)
  then show ?thesis
    by (simp add: retrieveRelevantDocsWithEmbeddings_def getEmbedding_def f Let_def js_sort_def)
      (simp add: fallback_def)
qed

lemma retrieve_requests:
  "snd (retrieveRelevantDocsWithEmbeddings tn net query documents) =
     (if isArray (generateEmbeddings (net 0) (Str query)) then Str query # map content documents
      else [Str query])"
  by (simp add: retrieveRelevantDocsWithEmbeddings_def getEmbedding_def Let_def truthy_array)

lemma score_doc_try_throws:
  "(\<exists>e. score_doc_try tn net qe (i, doc) = Inl e) \<longleftrightarrow>
     isArray qe \<and> isArray (generateEmbeddings (net (Suc i)) (content doc))
     \<and> unconvertible (elems qe) (elems (generateEmbeddings (net (Suc i)) (content doc)))"
  by (simp add: score_doc_try_def getEmbedding_def cosineSimilarity_value)

lemma generateEmbeddings_read:
  assumes "fetch t = Response status (Some result)" "response_ok status"
  shows "generateEmbeddings fetch t =
    (case get_field ''data'' result of
       Inl e \<Rightarrow> fallback
     | Inr d \<Rightarrow>
         (case get_index0 d of
            Inl e \<Rightarrow> fallback
          | Inr d0 \<Rightarrow> (case get_field ''embedding'' d0 of Inl e \<Rightarrow> fallback | Inr v \<Rightarrow> v)))"
  using assms by (simp add: generateEmbeddings_def generateEmbeddings_try_def split: sum.splits)

text \<open>
  Claim C10, as amended. \<open>getEmbedding\<close> never throws. Every throw inside the \<open>try\<close>
  block of \<open>generateEmbeddings\<close> is replaced by the array of 512 zeros: a rejected
  request, a status that is not a success, a body that does not parse, and a reply in
  which \<open>data\<close>, \<open>data[0]\<close> or \<open>data[0].embedding\<close> cannot be read. When nothing throws it
  returns the value that the reply holds at \<open>data[0].embedding\<close>, which need not be an
  array. So the retriever leaves through its early exit, with no document embedded,
  exactly when a reply to the query is read without a throw and holds no array there;
  a failed query embedding reaches the empty result with every document embedded and
  its score 0, not through the early exit. The per-document \<open>catch\<close> is taken exactly
  when \<open>cosineSimilarity\<close> throws, that is when the two embeddings are arrays and one of
  them holds, below the common length, a value that has no primitive; the score is
  then 0.
\<close>

theorem embedding_accessor_total:
  "(\<exists>v. getEmbedding fetch text = Inr v)
   \<and> ((\<exists>e. generateEmbeddings_try (fetch text) = Inl e) \<longrightarrow>
        generateEmbeddings fetch text = fallback \<and> isArray (generateEmbeddings fetch text))
   \<and> (embedding_call_fails (fetch text) \<longrightarrow> generateEmbeddings fetch text = fallback)
   \<and> (\<forall>status result. fetch text = Response status (Some result) \<and> response_ok status \<longrightarrow>
        generateEmbeddings fetch text =
          (case get_field ''data'' result of
             Inl e \<Rightarrow> fallback
           | Inr d \<Rightarrow>
               (case get_index0 d of
                  Inl e \<Rightarrow> fallback
                | Inr d0 \<Rightarrow>
                    (case get_field ''embedding'' d0 of Inl e \<Rightarrow> fallback | Inr v \<Rightarrow> v))))
   \<and> (\<forall>v. generateEmbeddings_try (fetch text) = Inr v \<longrightarrow> generateEmbeddings fetch text = v)
   \<and> (\<not> isArray (generateEmbeddings fetch text) \<longleftrightarrow>
        (\<exists>v. generateEmbeddings_try (fetch text) = Inr v \<and> \<not> isArray v))
   \<and> snd (retrieveRelevantDocsWithEmbeddings tn net query documents) =
        (if isArray (generateEmbeddings (net 0) (Str query)) then Str query # map content documents
         else [Str query])
   \<and> ((\<exists>e. generateEmbeddings_try (net 0 (Str query)) = Inl e) \<longrightarrow>
        retrieveRelevantDocsWithEmbeddings tn net query documents =
          ([], Str query # map content documents))
   \<and> ((\<exists>e. score_doc_try tn net qe (i, doc) = Inl e) \<longleftrightarrow>
        isArray qe \<and> isArray (generateEmbeddings (net (Suc i)) (content doc))
        \<and> unconvertible (elems qe) (elems (generateEmbeddings (net (Suc i)) (content doc))))
   \<and> ((\<exists>e. score_doc_try tn net qe (i, doc) = Inl e) \<longrightarrow>
        score_doc tn net qe (i, doc) =
          \<lparr>filename = filename doc, content = content doc, score = zero\<rparr>)"
proof (intro conjI)
  show "\<exists>v. getEmbedding fetch text = Inr v"
    by (simp add: getEmbedding_def)
  show "(\<exists>e. generateEmbeddings_try (fetch text) = Inl e) \<longrightarrow>
        generateEmbeddings fetch text = fallback \<and> isArray (generateEmbeddings fetch text)"
    by (auto simp: generateEmbeddings_def fallback_def)
  show "embedding_call_fails (fetch text) \<longrightarrow> generateEmbeddings fetch text = fallback"
    using generateEmbeddings_failed [of fetch "text"] by (auto simp: generateEmbeddings_def)
  show "\<forall>status result. fetch text = Response status (Some result) \<and> response_ok status \<longrightarrow>
        generateEmbeddings fetch text =
          (case get_field ''data'' result of
             Inl e \<Rightarrow> fallback
           | Inr d \<Rightarrow>
               (case get_index0 d of
                  Inl e \<Rightarrow> fallback
                | Inr d0 \<Rightarrow>
                    (case get_field ''embedding'' d0 of Inl e \<Rightarrow> fallback | Inr v \<Rightarrow> v)))"
    using generateEmbeddings_read [of fetch "text"] by blast
  show "\<forall>v. generateEmbeddings_try (fetch text) = Inr v \<longrightarrow> generateEmbeddings fetch text = v"
    by (simp add: generateEmbeddings_def)
  show "\<not> isArray (generateEmbeddings fetch text) \<longleftrightarrow>
        (\<exists>v. generateEmbeddings_try (fetch text) = Inr v \<and> \<not> isArray v)"
    by (cases "generateEmbeddings_try (fetch text)") (simp_all add: generateEmbeddings_def fallback_def)
  show "snd (retrieveRelevantDocsWithEmbeddings tn net query documents) =
        (if isArray (generateEmbeddings (net 0) (Str query)) then Str query # map content documents
         else [Str query])"
    by (rule retrieve_requests)
  show "(\<exists>e. generateEmbeddings_try (net 0 (Str query)) = Inl e) \<longrightarrow>
        retrieveRelevantDocsWithEmbeddings tn net query documents =
          ([], Str query # map content documents)"
    using retrieve_failed_query [of net query _ tn documents] by blast
  show "(\<exists>e. score_doc_try tn net qe (i, doc) = Inl e) \<longleftrightarrow>
        isArray qe \<and> isArray (generateEmbeddings (net (Suc i)) (content doc))
        \<and> unconvertible (elems qe) (elems (generateEmbeddings (net (Suc i)) (content doc)))"
    by (rule score_doc_try_throws)
  show "(\<exists>e. score_doc_try tn net qe (i, doc) = Inl e) \<longrightarrow>
        score_doc tn net qe (i, doc) =
          \<lparr>filename = filename doc, content = content doc, score = zero\<rparr>"
    by (auto simp: score_doc_def)
qed

theorem embedding_accessor_total_witness:
  "generateEmbeddings_try (net_empty_data 0 (Str ''q'')) = Inl TypeError
   \<and> generateEmbeddings (net_empty_data 0) (Str ''q'') = fallback
   \<and> retrieveRelevantDocsWithEmbeddings tn_sample net_empty_data ''q'' docs_sample =
       ([], [Str ''q'', Str ''A'', Str ''B'', Str ''C'', Str ''D'', Str ''E''])
   \<and> embedding_call_fails (net_down 0 (Str ''q''))
   \<and> generateEmbeddings (net_down 0) (Str ''q'') = fallback
   \<and> score_doc tn_sample net_unconvertible (Arr [Num one]) (0, doc_a) =
       \<lparr>filename = ''a.json'', content = Str ''A'', score = zero\<rparr>"
proof -
  note t = embedding_accessor_total [of "net_empty_data 0" "Str ''q''" tn_sample net_empty_data "''q''"
      docs_sample "Arr [Num one]" 0 doc_a]
  note d = embedding_accessor_total [of "net_down 0" "Str ''q''" tn_sample net_unconvertible "''q''"
      docs_sample "Arr [Num one]" 0 doc_a]
  have e: "generateEmbeddings_try (net_empty_data 0 (Str ''q'')) = Inl TypeError"
    by (simp add: generateEmbeddings_try_def net_empty_data_def response_ok_def)
  have r: "net_empty_data 0 (Str ''q'') = Response 200 (Some (Obj [(''data'', Arr [])]))"
      "response_ok 200"
    by (simp_all add: net_empty_data_def response_ok_def)
  from t [THEN conjunct2, THEN conjunct2, THEN conjunct2, THEN conjunct1] r
  have g: "generateEmbeddings (net_empty_data 0) (Str ''q'') = fallback"
    by simp
  from t [THEN conjunct2, THEN conjunct2, THEN conjunct2, THEN conjunct2, THEN conjunct2,
      THEN conjunct2, THEN conjunct2, THEN conjunct1] e
  have q: "retrieveRelevantDocsWithEmbeddings tn_sample net_empty_data ''q'' docs_sample =
       ([], [Str ''q'', Str ''A'', Str ''B'', Str ''C'', Str ''D'', Str ''E''])"
    by (simp add: docs_sample_def)
  have h: "embedding_call_fails (net_down 0 (Str ''q''))" by (simp add: net_down_def)
  from d [THEN conjunct2, THEN conjunct2, THEN conjunct1] h
  have f: "generateEmbeddings (net_down 0) (Str ''q'') = fallback"
    by simp
  have u: "isArray (Arr [Num one]) \<and> isArray (generateEmbeddings (net_unconvertible (Suc 0)) (content doc_a))
      \<and> unconvertible (elems (Arr [Num one]))
          (elems (generateEmbeddings (net_unconvertible (Suc 0)) (content doc_a)))"
    by (simp add: net_unconvertible_def generateEmbeddings_reply unconvertible_def)
  from d [THEN conjunct2, THEN conjunct2, THEN conjunct2, THEN conjunct2, THEN conjunct2,
      THEN conjunct2, THEN conjunct2, THEN conjunct2, THEN conjunct1] u
  have "\<exists>e. score_doc_try tn_sample net_unconvertible (Arr [Num one]) (0, doc_a) = Inl e"
    by simp
  with d [THEN conjunct2, THEN conjunct2, THEN conjunct2, THEN conjunct2, THEN conjunct2,
      THEN conjunct2, THEN conjunct2, THEN conjunct2, THEN conjunct2]
  have c: "score_doc tn_sample net_unconvertible (Arr [Num one]) (0, doc_a) =
       \<lparr>filename = ''a.json'', content = Str ''A'', score = zero\<rparr>"
    by (simp add: doc_a_def)
  from e g q h f c show ?thesis by (intro conjI)
qed

text \<open>
  The claim as stated fails twice. A reply \<open>{"data": [{}]}\<close> with status 200 makes
  \<open>generateEmbeddings\<close> return \<open>undefined\<close>, and the retriever leaves through the early
  exit, with no document embedded. And when the query embedding is \<open>[1]\<close> and the
  embedding of a document is \<open>[{"toString": 0}]\<close>, \<open>cosineSimilarity\<close> throws a TypeError
  and the per-document \<open>catch\<close> is taken.
\<close>

theorem early_exit_reachable:
  "\<not> isArray (generateEmbeddings (net_no_embedding 0) (Str ''q''))
   \<and> generateEmbeddings_try (net_no_embedding 0 (Str ''q'')) = Inr Undefined
   \<and> retrieveRelevantDocsWithEmbeddings tn_sample net_no_embedding ''q'' docs_sample = ([], [Str ''q''])
   \<and> generateEmbeddings (net_unconvertible 0) (Str ''q'') = Arr [Num one]
   \<and> generateEmbeddings (net_unconvertible 1) (Str ''A'') = Arr [Obj [(''toString'', Num zero)]]
   \<and> cosineSimilarity tn_sample (Arr [Num one]) (Arr [Obj [(''toString'', Num zero)]]) = Inl TypeError
   \<and> score_doc_try tn_sample net_unconvertible (Arr [Num one]) (0, doc_a) = Inl TypeError"
proof -
  have a: "\<not> isArray (generateEmbeddings (net_no_embedding 0) (Str ''q''))
      \<and> generateEmbeddings_try (net_no_embedding 0 (Str ''q'')) = Inr Undefined
      \<and> retrieveRelevantDocsWithEmbeddings tn_sample net_no_embedding ''q'' docs_sample = ([], [Str ''q''])"
    by (simp add: generateEmbeddings_def generateEmbeddings_try_def net_no_embedding_def
        response_ok_def retrieveRelevantDocsWithEmbeddings_def getEmbedding_def)
  have g: "generateEmbeddings (net_unconvertible 0) (Str ''q'') = Arr [Num one]"
      "generateEmbeddings (net_unconvertible 1) (Str ''A'') = Arr [Obj [(''toString'', Num zero)]]"
    by (simp_all add: net_unconvertible_def generateEmbeddings_reply)
  have c: "cosineSimilarity tn_sample (Arr [Num one]) (Arr [Obj [(''toString'', Num zero)]]) =
      Inl TypeError"
    by (simp add: cosineSimilarity_arrays_value unconvertible_def)
  have s: "score_doc_try tn_sample net_unconvertible (Arr [Num one]) (0, doc_a) = Inl TypeError"
    using g(2) c by (simp add: score_doc_try_def getEmbedding_def doc_a_def)
  from a g c s show ?thesis by (intro conjI) simp_all
qed

section \<open>The orchestrator\<close>











end
